theory Spec2Isabelle
  imports Complex_Main "HOL-Library.Word"
begin

unbundle bit_operations_syntax

section \<open>The Bloom-filter shards of \<^verbatim>\<open>src/bloom_filter.c\<close>\<close>

text \<open>
  The C file is embedded function by function. Heap buffers are lists, the struct is a
  record, and every operation whose behaviour C leaves undefined (an access outside an
  array, a remainder or a quotient by zero) is a branch that returns a \<open>fault\<close>, so
  that a theorem of the form \<open>f x = Inr y\<close> says that the call is defined and returns.

  Three things are used by the file and declared elsewhere (\<^verbatim>\<open>bloom_filter.h\<close> and the
  xxHash library): the constant \<^verbatim>\<open>BLOOM_SIZE\<close>, the hash \<^verbatim>\<open>XXH32\<close> and the declaration of
  the struct. The first two are parameters of the development (the record \<open>config\<close>);
  the struct follows the fields that the C file reads and writes.
\<close>

subsection \<open>Machine types, strings, faults\<close>

type_synonym uint8_t = "8 word"
type_synonym uint32_t = "32 word"
type_synonym size_t = "64 word"

abbreviation NUL :: char where
  "NUL \<equiv> CHR 0x00"

abbreviation NL :: char where
  "NL \<equiv> CHR 0x0A"

datatype fault =
    HashModulusZero             \<comment> \<open>\<^verbatim>\<open>XXH32(...) % BLOOM_SIZE\<close> with \<^verbatim>\<open>BLOOM_SIZE == 0\<close>\<close>
  | PlannerDivisorZero          \<comment> \<open>\<^verbatim>\<open>... / filter_size_bits\<close> with a zero divisor\<close>
  | CursorModulusZero           \<comment> \<open>\<^verbatim>\<open>(current_filter + 1) % num_filters\<close> with \<^verbatim>\<open>num_filters == 0\<close>\<close>
  | BitArrayOutOfBounds nat     \<comment> \<open>\<^verbatim>\<open>bit_array[i]\<close> with \<open>i\<close> outside the allocation\<close>
  | FilterIndexOutOfBounds nat  \<comment> \<open>\<^verbatim>\<open>filters[i]\<close> with \<open>i\<close> outside the array\<close>
  | SourceOverread              \<comment> \<open>\<^verbatim>\<open>strncpy\<close> running off its source before a terminator\<close>

record config =
  BLOOM_SIZE :: nat
  XXH32 :: "char list \<Rightarrow> uint32_t \<Rightarrow> uint32_t"

text \<open>
  \<open>XXH32 c bytes seed\<close> stands for the library call \<^verbatim>\<open>XXH32(p, len, seed)\<close> where \<open>bytes\<close>
  are the \<^verbatim>\<open>len\<close> bytes at \<^verbatim>\<open>p\<close>. A \<^verbatim>\<open>const char *\<close> argument is the list of the bytes
  at the pointer; the string it denotes ends before the first NUL (or at the end of the
  list).
\<close>

definition strlen :: "char list \<Rightarrow> nat" where
  "strlen data = length (takeWhile (\<lambda>ch. ch \<noteq> NUL) data)"

record BloomFilter =
  bit_array :: "uint8_t list"
  size_bits :: nat
  count :: nat

text \<open>
  \<open>size_bits\<close> is the field \<^verbatim>\<open>size\<close> and \<open>count\<close> the field \<^verbatim>\<open>count\<close>; both are
  natural numbers here, their C types being part of the absent declaration.
\<close>

subsection \<open>The shard planner\<close>

text \<open>
  \<^verbatim>\<open>int determine_optimal_bloom_filters(size_t file_size)\<close>: the arithmetic is done in
  \<^verbatim>\<open>size_t\<close> (64 bits, wrapping) and the quotient is returned as an \<^verbatim>\<open>int\<close> (32 bits,
  two's complement, the low bits of the quotient).
\<close>

definition determine_optimal_bloom_filters :: "config \<Rightarrow> size_t \<Rightarrow> fault + int" where
  "determine_optimal_bloom_filters c file_size =
     (let filter_size_bits = (word_of_nat (BLOOM_SIZE c) :: size_t) in
      if filter_size_bits = 0 then Inl PlannerDivisorZero
      else Inr (sint (ucast ((file_size + filter_size_bits - 1) div filter_size_bits) :: 32 word)))"

subsection \<open>Creating a filter\<close>

text \<open>
  \<^verbatim>\<open>create_bloom_filter\<close>: the two booleans say whether \<^verbatim>\<open>malloc\<close> and \<^verbatim>\<open>calloc\<close> return a
  block; \<open>None\<close> is the \<^verbatim>\<open>NULL\<close> result.
\<close>

definition create_bloom_filter :: "bool \<Rightarrow> bool \<Rightarrow> nat \<Rightarrow> BloomFilter option" where
  "create_bloom_filter malloc_ok calloc_ok sz =
     (if \<not> malloc_ok then None
      else if \<not> calloc_ok then None
      else Some \<lparr>bit_array = replicate (sz div 8) 0, size_bits = sz, count = 0\<rparr>)"

subsection \<open>Bits and hashes\<close>

definition set_bit_c :: "uint8_t list \<Rightarrow> uint32_t \<Rightarrow> fault + uint8_t list" where
  "set_bit_c arr index =
     (let i = unat index div 8 in
      if i < length arr
      then Inr (arr[i := arr ! i OR push_bit (unat index mod 8) 1])
      else Inl (BitArrayOutOfBounds i))"

definition get_bit_c :: "uint8_t list \<Rightarrow> uint32_t \<Rightarrow> fault + int" where
  "get_bit_c arr index =
     (let i = unat index div 8 in
      if i < length arr
      then Inr (uint (arr ! i AND push_bit (unat index mod 8) 1))
      else Inl (BitArrayOutOfBounds i))"

definition xxhash_seeded :: "config \<Rightarrow> uint32_t \<Rightarrow> char list \<Rightarrow> fault + uint32_t" where
  "xxhash_seeded c seed data =
     (if BLOOM_SIZE c = 0 then Inl HashModulusZero
      else Inr (word_of_nat (unat (XXH32 c (take (strlen data) data) seed) mod BLOOM_SIZE c)))"

definition xxhash1 :: "config \<Rightarrow> char list \<Rightarrow> fault + uint32_t" where
  "xxhash1 c data = xxhash_seeded c 0 data"

definition xxhash2 :: "config \<Rightarrow> char list \<Rightarrow> fault + uint32_t" where
  "xxhash2 c data = xxhash_seeded c 1 data"

definition xxhash3 :: "config \<Rightarrow> char list \<Rightarrow> fault + uint32_t" where
  "xxhash3 c data = xxhash_seeded c 2 data"

subsection \<open>Insert, fullness, membership\<close>

definition bloom_insert :: "config \<Rightarrow> BloomFilter \<Rightarrow> char list \<Rightarrow> fault + BloomFilter" where
  "bloom_insert c flt data =
     (case xxhash1 c data of Inl e \<Rightarrow> Inl e | Inr h1 \<Rightarrow>
      case set_bit_c (bit_array flt) h1 of Inl e \<Rightarrow> Inl e | Inr a1 \<Rightarrow>
      case xxhash2 c data of Inl e \<Rightarrow> Inl e | Inr h2 \<Rightarrow>
      case set_bit_c a1 h2 of Inl e \<Rightarrow> Inl e | Inr a2 \<Rightarrow>
      case xxhash3 c data of Inl e \<Rightarrow> Inl e | Inr h3 \<Rightarrow>
      case set_bit_c a2 h3 of Inl e \<Rightarrow> Inl e | Inr a3 \<Rightarrow>
      Inr (flt\<lparr>bit_array := a3, count := count flt + 1\<rparr>))"

definition bloom_filter_is_full :: "BloomFilter \<Rightarrow> int" where
  "bloom_filter_is_full flt = (if count flt \<ge> size_bits flt div 8 then 1 else 0)"

text \<open>\<^verbatim>\<open>&&\<close> evaluates its right operand only when the left one is not zero.\<close>

definition bloom_contains :: "config \<Rightarrow> BloomFilter \<Rightarrow> char list \<Rightarrow> fault + int" where
  "bloom_contains c flt data =
     (case xxhash1 c data of Inl e \<Rightarrow> Inl e | Inr h1 \<Rightarrow>
      case get_bit_c (bit_array flt) h1 of Inl e \<Rightarrow> Inl e | Inr b1 \<Rightarrow>
      if b1 = 0 then Inr 0 else
      case xxhash2 c data of Inl e \<Rightarrow> Inl e | Inr h2 \<Rightarrow>
      case get_bit_c (bit_array flt) h2 of Inl e \<Rightarrow> Inl e | Inr b2 \<Rightarrow>
      if b2 = 0 then Inr 0 else
      case xxhash3 c data of Inl e \<Rightarrow> Inl e | Inr h3 \<Rightarrow>
      case get_bit_c (bit_array flt) h3 of Inl e \<Rightarrow> Inl e | Inr b3 \<Rightarrow>
      if b3 = 0 then Inr 0 else Inr 1)"

subsection \<open>Reading the corpus\<close>

text \<open>
  The open file is the list of the bytes not yet read. \<^verbatim>\<open>fgets(s, n, f)\<close> reads at most
  \<open>n - 1\<close> bytes, stops after a newline, stores what it read and a terminator at the
  start of \<open>s\<close> and leaves the rest of \<open>s\<close> as it was; at the end of the file, with
  nothing read, it returns \<^verbatim>\<open>NULL\<close> (\<open>None\<close>) and leaves \<open>s\<close> alone.
\<close>

fun fgets_chars :: "nat \<Rightarrow> char list \<Rightarrow> char list" where
  "fgets_chars 0 stream = []"
| "fgets_chars (Suc n) [] = []"
| "fgets_chars (Suc n) (ch # stream) =
     (if ch = NL then [ch] else ch # fgets_chars n stream)"

definition fgets_c :: "char list \<Rightarrow> nat \<Rightarrow> char list \<Rightarrow> (char list \<times> char list) option" where
  "fgets_c s n stream =
     (if stream = [] then None
      else let chars = fgets_chars (n - 1) stream in
        Some (chars @ NUL # drop (Suc (length chars)) s, drop (length chars) stream))"

text \<open>
  \<^verbatim>\<open>strncpy(dest, src, n)\<close>, as the \<open>n\<close> bytes it writes to \<open>dest\<close>: the bytes of \<open>src\<close> up to
  its terminator, then NUL bytes up to \<open>n\<close>. It reads \<open>src\<close> no further than the
  terminator; a source that ends with neither \<open>n\<close> bytes nor a terminator is read past
  its end.
\<close>

fun strncpy_c :: "char list \<Rightarrow> nat \<Rightarrow> char list option" where
  "strncpy_c src 0 = Some []"
| "strncpy_c [] (Suc n) = None"
| "strncpy_c (ch # src) (Suc n) =
     (if ch = NUL then Some (replicate (Suc n) NUL)
      else map_option ((#) ch) (strncpy_c src n))"

subsection \<open>Populating the shards\<close>

text \<open>
  The body of the \<^verbatim>\<open>while\<close> loop of \<^verbatim>\<open>populate_recursive_bloom_filters\<close> (lines 83 to
  92), on the buffer \<open>line\<close> that \<^verbatim>\<open>fgets\<close> has just filled. \<^verbatim>\<open>hash_prefix\<close> is written in
  full on every iteration: ten bytes by \<^verbatim>\<open>strncpy\<close>, the eleventh by the assignment.
\<close>

definition populate_body ::
  "config \<Rightarrow> BloomFilter list \<Rightarrow> char list \<Rightarrow> nat \<Rightarrow> nat \<Rightarrow> fault + BloomFilter list \<times> nat" where
  "populate_body c filters line num_filters current_filter =
     (case strncpy_c line 10 of None \<Rightarrow> Inl SourceOverread | Some copied \<Rightarrow>
      let hash_prefix = copied @ [NUL] in
      if current_filter \<ge> length filters then Inl (FilterIndexOutOfBounds current_filter) else
      case bloom_insert c (filters ! current_filter) hash_prefix of Inl e \<Rightarrow> Inl e | Inr f \<Rightarrow>
      let filters' = filters[current_filter := f] in
      if bloom_filter_is_full (filters' ! current_filter) \<noteq> 0
      then (if num_filters = 0 then Inl CursorModulusZero
            else Inr (filters', (current_filter + 1) mod num_filters))
      else Inr (filters', current_filter))"

lemma fgets_c_consumes:
  "fgets_c s 128 stream = Some (s', rest) \<Longrightarrow> length rest < length stream"
  by (cases stream) (auto simp: fgets_c_def Let_def eval_nat_numeral split: if_splits)

text \<open>
  The loop itself. \<open>line\<close> is the content of the local array \<^verbatim>\<open>char line[128]\<close>, which
  starts out indeterminate; the result is the shard array and the cursor when the
  stream is exhausted.
\<close>

function populate_recursive_bloom_filters ::
  "config \<Rightarrow> BloomFilter list \<Rightarrow> char list \<Rightarrow> char list \<Rightarrow> nat \<Rightarrow> nat
     \<Rightarrow> fault + BloomFilter list \<times> nat" where
  "populate_recursive_bloom_filters c filters line pwned_file num_filters current_filter =
     (case fgets_c line 128 pwned_file of
        None \<Rightarrow> Inr (filters, current_filter)
      | Some (line', rest) \<Rightarrow>
          (case populate_body c filters line' num_filters current_filter of
             Inl e \<Rightarrow> Inl e
           | Inr (filters', current_filter') \<Rightarrow>
               populate_recursive_bloom_filters c filters' line' rest num_filters current_filter'))"
  by pat_completeness auto
termination
  by (relation "measure (\<lambda>(c, filters, line, pwned_file, num_filters, current_filter). length pwned_file)")
     (auto dest: fgets_c_consumes)

declare populate_recursive_bloom_filters.simps [simp del]

text \<open>
  \<^verbatim>\<open>split_into_bloom_filters\<close>: \<open>pwned_file\<close> is \<open>None\<close> when \<^verbatim>\<open>fopen\<close> fails (the shards are
  left as they are) and the content of the file otherwise; the cursor starts at 0.
\<close>

definition split_into_bloom_filters ::
  "config \<Rightarrow> char list option \<Rightarrow> char list \<Rightarrow> BloomFilter list \<Rightarrow> nat \<Rightarrow> fault + BloomFilter list" where
  "split_into_bloom_filters c pwned_file line filters num_filters =
     (case pwned_file of
        None \<Rightarrow> Inr filters
      | Some content \<Rightarrow>
          (case populate_recursive_bloom_filters c filters line content num_filters 0 of
             Inl e \<Rightarrow> Inl e
           | Inr (filters', current_filter) \<Rightarrow> Inr filters'))"

subsection \<open>Notions used to state the properties\<close>

text \<open>
  Bit \<open>i\<close> of a bit array, as \<^verbatim>\<open>get_bit\<close> reads it, for an index inside the array; the
  bit position that \<^verbatim>\<open>xxhash1\<close>, \<^verbatim>\<open>xxhash2\<close> and \<^verbatim>\<open>xxhash3\<close> compute for the seeds 0, 1
  and 2; a sequence of inserts into one filter; the invariant of the data model; and
  the condition under which every hash position lies inside the bit array.
\<close>

definition bit_is_set :: "uint8_t list \<Rightarrow> nat \<Rightarrow> bool" where
  "bit_is_set arr i = (i div 8 < length arr \<and> bit (arr ! (i div 8)) (i mod 8))"

definition bit_position :: "config \<Rightarrow> uint32_t \<Rightarrow> char list \<Rightarrow> nat" where
  "bit_position c seed data = unat (XXH32 c (takeWhile (\<lambda>ch. ch \<noteq> NUL) data) seed) mod BLOOM_SIZE c"

fun bloom_insert_all :: "config \<Rightarrow> BloomFilter \<Rightarrow> char list list \<Rightarrow> fault + BloomFilter" where
  "bloom_insert_all c flt [] = Inr flt"
| "bloom_insert_all c flt (key # keys) =
     (case bloom_insert c flt key of Inl e \<Rightarrow> Inl e | Inr flt' \<Rightarrow> bloom_insert_all c flt' keys)"

definition filter_inv :: "BloomFilter \<Rightarrow> bool" where
  "filter_inv flt =
     (length (bit_array flt) = size_bits flt div 8 \<and>
      (\<forall>i. bit_is_set (bit_array flt) i \<longrightarrow> i < size_bits flt))"

definition covers :: "config \<Rightarrow> BloomFilter \<Rightarrow> bool" where
  "covers c flt = (0 < BLOOM_SIZE c \<and> BLOOM_SIZE c \<le> 8 * length (bit_array flt))"

text \<open>
  The strings that the loop hands to \<^verbatim>\<open>bloom_insert\<close>, in the order of the file: for
  each buffer that \<^verbatim>\<open>fgets\<close> fills, the string in \<^verbatim>\<open>hash_prefix\<close> after lines 83 and 84.
\<close>

function corpus_keys :: "char list \<Rightarrow> char list \<Rightarrow> char list list" where
  "corpus_keys line pwned_file =
     (case fgets_c line 128 pwned_file of
        None \<Rightarrow> []
      | Some (line', rest) \<Rightarrow>
          (case strncpy_c line' 10 of
             None \<Rightarrow> []
           | Some copied \<Rightarrow>
               takeWhile (\<lambda>ch. ch \<noteq> NUL) (copied @ [NUL]) # corpus_keys line' rest))"
  by pat_completeness auto
termination
  by (relation "measure (\<lambda>(line, pwned_file). length pwned_file)")
     (auto dest: fgets_c_consumes)

declare corpus_keys.simps [simp del]

text \<open>
  The Populator as section 4.4 of the spec words it (steps 1 to 5), over the list of
  keys instead of the stream of lines, to be compared with the loop of the source. It
  keeps a cursor, inserts each key into the shard at the cursor with the source's
  \<^verbatim>\<open>bloom_insert\<close>, and after each insert advances the cursor by one modulo the shard
  count when that shard reports full, and leaves it otherwise.
\<close>

fun populate_spec ::
  "config \<Rightarrow> BloomFilter list \<Rightarrow> nat \<Rightarrow> char list list \<Rightarrow> fault + BloomFilter list \<times> nat" where
  "populate_spec c shard_set current_shard [] = Inr (shard_set, current_shard)"
| "populate_spec c shard_set current_shard (key # keys) =
     (case bloom_insert c (shard_set ! current_shard) key of
        Inl e \<Rightarrow> Inl e
      | Inr shard \<Rightarrow>
          populate_spec c (shard_set[current_shard := shard])
            (if bloom_filter_is_full shard \<noteq> 0
             then (current_shard + 1) mod length shard_set
             else current_shard)
            keys)"


text \<open>Some shard's membership test returns 1 for the key.\<close>

definition held :: "config \<Rightarrow> BloomFilter list \<Rightarrow> char list \<Rightarrow> bool" where
  "held c shard_set key = (\<exists>i < length shard_set. bloom_contains c (shard_set ! i) key = Inr 1)"

text \<open>
  \<open>plan\<close> as section 4.2 of the spec words it, to be compared with the planner of the
  source: the ceiling of the quotient of the file length by the filter width.
\<close>

definition plan_spec :: "nat \<Rightarrow> nat \<Rightarrow> int" where
  "plan_spec file_bytes filter_bit_width = \<lceil>real file_bytes / real filter_bit_width\<rceil>"

text \<open>
  A stand-in for the library hash, for closed instances only: the sum of the bytes plus
  the seed. Every general theorem below holds for an arbitrary \<open>XXH32\<close>.
\<close>

definition demo_XXH32 :: "char list \<Rightarrow> uint32_t \<Rightarrow> uint32_t" where
  "demo_XXH32 bytes seed = word_of_nat (sum_list (map of_char bytes)) + seed"

definition demo_config :: "nat \<Rightarrow> config" where
  "demo_config B = \<lparr>BLOOM_SIZE = B, XXH32 = demo_XXH32\<rparr>"

text \<open>
  A fresh filter of 16 bits (full from two inserts on) and a corpus of five lines, the
  third one shorter than a key.
\<close>

definition demo_filter :: BloomFilter where
  "demo_filter = \<lparr>bit_array = [0, 0], size_bits = 16, count = 0\<rparr>"

definition demo_corpus :: "char list" where
  "demo_corpus = ''0123456789ABCDEF:1'' @ [NL] @ ''00000AAAAA:22'' @ [NL] @ ''abc'' @ [NL] @
     ''FFFFFFFFFF:3'' @ [NL] @ ''0000000001:4'' @ [NL]"

section \<open>Properties of a single filter\<close>

subsection \<open>Hash positions and single bits\<close>

lemma unat_reduced: "unat (word_of_nat (unat (h :: uint32_t) mod B) :: uint32_t) = unat h mod B"
proof -
  have "unat h mod B \<le> unat h" by simp
  moreover have "unat h < 2 ^ 32" using unsigned_less [of h] by simp
  ultimately have "unat h mod B < 2 ^ LENGTH(32)" by (simp del: mod_less_eq_dividend)
  then show ?thesis by (simp add: of_nat_inverse)
qed

lemma take_strlen: "take (strlen data) data = takeWhile (\<lambda>ch. ch \<noteq> NUL) data"
  unfolding strlen_def by (rule takeWhile_eq_take [symmetric])

lemma xxhash_seeded_position:
  "0 < BLOOM_SIZE c \<Longrightarrow>
   xxhash_seeded c seed data = Inr (word_of_nat (bit_position c seed data)) \<and>
   unat (word_of_nat (bit_position c seed data) :: uint32_t) = bit_position c seed data"
  by (simp add: xxhash_seeded_def bit_position_def take_strlen unat_reduced)

lemma bit_position_less: "0 < BLOOM_SIZE c \<Longrightarrow> bit_position c seed data < BLOOM_SIZE c"
  by (simp add: bit_position_def)

lemma bit_one_hot: "bit (2 ^ (k mod 8) :: uint8_t) n \<longleftrightarrow> n = k mod 8"
  by (auto simp: bit_exp_iff possible_bit_word)

lemma set_bit_c_defined:
  "unat index < 8 * length arr \<Longrightarrow> \<exists>arr'. set_bit_c arr index = Inr arr'"
  by (simp add: set_bit_c_def Let_def) 

lemma set_bit_c_length:
  "set_bit_c arr index = Inr arr' \<Longrightarrow> length arr' = length arr"
  by (auto simp: set_bit_c_def Let_def split: if_splits)

lemma bit_is_set_set_bit_c:
  assumes "set_bit_c arr index = Inr arr'"
  shows "bit_is_set arr' j \<longleftrightarrow> (j = unat index \<or> bit_is_set arr j)"
proof -
  let ?i = "unat index div 8"
  from assms have lt: "?i < length arr"
    and arr': "arr' = arr[?i := arr ! ?i OR push_bit (unat index mod 8) 1]"
    by (auto simp: set_bit_c_def Let_def split: if_splits)
  show ?thesis
  proof (cases "j div 8 = ?i")
    case True
    have "j = unat index \<longleftrightarrow> j mod 8 = unat index mod 8"
      using True by (metis div_mult_mod_eq)
    then show ?thesis
      using True lt by (auto simp: bit_is_set_def arr' bit_or_iff bit_one_hot)
  next
    case False
    then have "j \<noteq> unat index" by auto
    then show ?thesis
      using False lt by (auto simp: bit_is_set_def arr')
  qed
qed

lemma get_bit_c_value:
  "get_bit_c arr index = Inr b \<Longrightarrow> (b \<noteq> 0) = bit_is_set arr (unat index)"
  by (auto simp: get_bit_c_def Let_def bit_is_set_def uint_0_iff and_exp_eq_0_iff_not_bit
      split: if_splits)

lemma get_bit_c_defined:
  "unat index < 8 * length arr \<Longrightarrow> \<exists>b. get_bit_c arr index = Inr b"
  by (simp add: get_bit_c_def Let_def)

text \<open>What an insert does when the bit array covers the modulus.\<close>

lemma bloom_insert_covers:
  assumes "covers c flt"
  shows "\<exists>flt'. bloom_insert c flt key = Inr flt' \<and>
     (\<forall>i. bit_is_set (bit_array flt') i \<longleftrightarrow>
        bit_is_set (bit_array flt) i \<or> i = bit_position c 0 key \<or>
        i = bit_position c 1 key \<or> i = bit_position c 2 key) \<and>
     length (bit_array flt') = length (bit_array flt) \<and>
     size_bits flt' = size_bits flt \<and> count flt' = count flt + 1"
proof -
  from assms have B: "0 < BLOOM_SIZE c" and le: "BLOOM_SIZE c \<le> 8 * length (bit_array flt)"
    by (simp_all add: covers_def)
  define p where "p s = (word_of_nat (bit_position c s key) :: uint32_t)" for s
  have h: "xxhash_seeded c s key = Inr (p s)" and u: "unat (p s) = bit_position c s key" for s
    using xxhash_seeded_position [OF B] by (simp_all add: p_def)
  have inb: "unat (p s) < 8 * length (bit_array flt)" for s
    using bit_position_less [OF B, of s key] le by (simp add: u)
  obtain a1 where a1: "set_bit_c (bit_array flt) (p 0) = Inr a1"
    using set_bit_c_defined [OF inb] by blast
  have l1: "length a1 = length (bit_array flt)" by (rule set_bit_c_length [OF a1])
  obtain a2 where a2: "set_bit_c a1 (p 1) = Inr a2"
    using set_bit_c_defined [of "p 1" a1] inb l1 by auto
  have l2: "length a2 = length (bit_array flt)" using set_bit_c_length [OF a2] l1 by simp
  obtain a3 where a3: "set_bit_c a2 (p 2) = Inr a3"
    using set_bit_c_defined [of "p 2" a2] inb l2 by auto
  have l3: "length a3 = length (bit_array flt)" using set_bit_c_length [OF a3] l2 by simp
  have ins: "bloom_insert c flt key = Inr (flt\<lparr>bit_array := a3, count := count flt + 1\<rparr>)"
    by (simp add: bloom_insert_def xxhash1_def xxhash2_def xxhash3_def h a1 a2 a3)
  have bits: "bit_is_set a3 i \<longleftrightarrow> bit_is_set (bit_array flt) i \<or> i = bit_position c 0 key \<or>
        i = bit_position c 1 key \<or> i = bit_position c 2 key" for i
    using bit_is_set_set_bit_c [OF a1, of i] bit_is_set_set_bit_c [OF a2, of i]
      bit_is_set_set_bit_c [OF a3, of i] by (auto simp: u)
  show ?thesis
    using ins bits l3 by simp
qed

lemma bloom_contains_covers:
  assumes "covers c flt"
  shows "bloom_contains c flt key =
     Inr (if bit_is_set (bit_array flt) (bit_position c 0 key) \<and>
             bit_is_set (bit_array flt) (bit_position c 1 key) \<and>
             bit_is_set (bit_array flt) (bit_position c 2 key) then 1 else 0)"
proof -
  from assms have B: "0 < BLOOM_SIZE c" and le: "BLOOM_SIZE c \<le> 8 * length (bit_array flt)"
    by (simp_all add: covers_def)
  define p where "p s = (word_of_nat (bit_position c s key) :: uint32_t)" for s
  have h: "xxhash_seeded c s key = Inr (p s)" and u: "unat (p s) = bit_position c s key" for s
    using xxhash_seeded_position [OF B] by (simp_all add: p_def)
  have inb: "unat (p s) < 8 * length (bit_array flt)" for s
    using bit_position_less [OF B, of s key] le by (simp add: u)
  have "\<exists>b. get_bit_c (bit_array flt) (p s) = Inr b \<and>
          (b \<noteq> 0) = bit_is_set (bit_array flt) (bit_position c s key)" for s
    using get_bit_c_defined [OF inb [of s]] get_bit_c_value [of "bit_array flt" "p s"]
    by (auto simp: u)
  then obtain b where b: "get_bit_c (bit_array flt) (p s) = Inr (b s)"
    and v: "(b s \<noteq> 0) = bit_is_set (bit_array flt) (bit_position c s key)" for s
    by metis
  show ?thesis
    using v [of 0] v [of 1] v [of 2]
    by (simp add: bloom_contains_def xxhash1_def xxhash2_def xxhash3_def h b)
qed

lemma covers_insert:
  "covers c flt \<Longrightarrow> bloom_insert c flt key = Inr flt' \<Longrightarrow> covers c flt'"
  using bloom_insert_covers [of c flt key] by (auto simp: covers_def)

subsection \<open>Sequences of inserts\<close>

lemma covers_insert_all:
  "covers c flt \<Longrightarrow> \<exists>flt'. bloom_insert_all c flt keys = Inr flt' \<and> covers c flt' \<and>
     size_bits flt' = size_bits flt \<and> length (bit_array flt') = length (bit_array flt) \<and>
     count flt' = count flt + length keys \<and>
     (\<forall>i. bit_is_set (bit_array flt) i \<longrightarrow> bit_is_set (bit_array flt') i)"
proof (induction keys arbitrary: flt)
  case Nil
  then show ?case by simp
next
  case (Cons key keys)
  from bloom_insert_covers [OF Cons.prems, of key] obtain f1 where
    f1: "bloom_insert c flt key = Inr f1"
    and bits: "\<And>i. bit_is_set (bit_array flt) i \<Longrightarrow> bit_is_set (bit_array f1) i"
    and same: "length (bit_array f1) = length (bit_array flt)" "size_bits f1 = size_bits flt"
      "count f1 = count flt + 1"
    by blast
  have "covers c f1" by (rule covers_insert [OF Cons.prems f1])
  from Cons.IH [OF this] obtain f2 where
    "bloom_insert_all c f1 keys = Inr f2" "covers c f2" "size_bits f2 = size_bits f1"
    "length (bit_array f2) = length (bit_array f1)" "count f2 = count f1 + length keys"
    "\<And>i. bit_is_set (bit_array f1) i \<Longrightarrow> bit_is_set (bit_array f2) i"
    by blast
  then show ?case
    using f1 bits same by simp
qed

lemma created_covers:
  assumes "0 < BLOOM_SIZE c" "8 dvd sz" "BLOOM_SIZE c \<le> sz"
    and "create_bloom_filter malloc_ok calloc_ok sz = Some flt"
  shows "covers c flt"
  using assms by (auto simp: create_bloom_filter_def covers_def split: if_splits)

lemma contains_after_insert:
  assumes "covers c flt" "bloom_insert c flt key = Inr flt'"
  shows "bloom_contains c flt' key = Inr 1"
proof -
  have "covers c flt'" by (rule covers_insert [OF assms])
  moreover have "bit_is_set (bit_array flt') (bit_position c s key)" if "s \<in> {0, 1, 2}" for s
    using bloom_insert_covers [OF assms(1), of key] assms(2) that by auto
  ultimately show ?thesis
    by (simp add: bloom_contains_covers)
qed

lemma contains_preserved:
  assumes "covers c flt" "bloom_contains c flt key = Inr 1"
    and "\<And>i. bit_is_set (bit_array flt) i \<Longrightarrow> bit_is_set (bit_array flt') i"
    and "covers c flt'"
  shows "bloom_contains c flt' key = Inr 1"
  using assms by (simp add: bloom_contains_covers split: if_splits)

subsection \<open>No false negatives in one filter\<close>

text \<open>
  C1. A filter is created with the capacity \<^verbatim>\<open>BLOOM_SIZE\<close>, the modulus of the hash
  reduction (a positive multiple of 8, as the data model requires of a capacity), and
  has received any sequence of inserts. Then inserting a key \<open>key\<close> is defined, the
  membership test for \<open>key\<close> returns 1 right after it, and it still returns 1 after any
  further sequence of inserts, each of which is defined as well.
\<close>

theorem no_false_negatives_single_filter:
  assumes "0 < BLOOM_SIZE c" and "8 dvd BLOOM_SIZE c"
    and "create_bloom_filter malloc_ok calloc_ok (BLOOM_SIZE c) = Some F0"
    and "bloom_insert_all c F0 earlier = Inr F"
  shows "\<exists>F1. bloom_insert c F key = Inr F1 \<and> bloom_contains c F1 key = Inr 1 \<and>
           (\<forall>later. \<exists>F2. bloom_insert_all c F1 later = Inr F2 \<and> bloom_contains c F2 key = Inr 1)"
proof -
  have "covers c F0"
    using created_covers [OF assms(1,2) _ assms(3)] by simp
  then have cF: "covers c F"
    using covers_insert_all [of c F0 earlier] assms(4) by auto
  then obtain F1 where F1: "bloom_insert c F key = Inr F1"
    using bloom_insert_covers [of c F key] by blast
  have c1: "covers c F1" by (rule covers_insert [OF cF F1])
  have in1: "bloom_contains c F1 key = Inr 1" by (rule contains_after_insert [OF cF F1])
  have "\<exists>F2. bloom_insert_all c F1 later = Inr F2 \<and> bloom_contains c F2 key = Inr 1" for later
  proof -
    from covers_insert_all [OF c1, of later] obtain F2 where
      F2: "bloom_insert_all c F1 later = Inr F2" and c2: "covers c F2"
      and mono: "\<And>i. bit_is_set (bit_array F1) i \<Longrightarrow> bit_is_set (bit_array F2) i"
      by blast
    show ?thesis
      using F2 contains_preserved [OF c1 in1 mono c2] by simp
  qed
  with F1 in1 show ?thesis by blast
qed

theorem no_false_negatives_single_filter_witness:
  "0 < BLOOM_SIZE (demo_config 16) \<and> 8 dvd BLOOM_SIZE (demo_config 16) \<and>
   create_bloom_filter True True (BLOOM_SIZE (demo_config 16))
     = Some \<lparr>bit_array = [0, 0], size_bits = 16, count = 0\<rparr> \<and>
   bloom_insert_all (demo_config 16) \<lparr>bit_array = [0, 0], size_bits = 16, count = 0\<rparr> [''00000AAAAA'']
     = Inr \<lparr>bit_array = [224, 0], size_bits = 16, count = 1\<rparr> \<and>
   bloom_insert (demo_config 16) \<lparr>bit_array = [224, 0], size_bits = 16, count = 1\<rparr> ''0123456789''
     = Inr \<lparr>bit_array = [224, 224], size_bits = 16, count = 2\<rparr> \<and>
   bloom_contains (demo_config 16) \<lparr>bit_array = [224, 224], size_bits = 16, count = 2\<rparr> ''0123456789'' = Inr 1 \<and>
   (\<exists>F2. bloom_insert_all (demo_config 16) \<lparr>bit_array = [224, 224], size_bits = 16, count = 2\<rparr>
            [''FFFFFFFFFF'', ''0000000001''] = Inr F2 \<and>
         bloom_contains (demo_config 16) F2 ''0123456789'' = Inr 1)"
proof -
  have a: "0 < BLOOM_SIZE (demo_config 16)" and b: "8 dvd BLOOM_SIZE (demo_config 16)"
    by (simp_all add: demo_config_def)
  have c: "create_bloom_filter True True (BLOOM_SIZE (demo_config 16))
     = Some \<lparr>bit_array = [0, 0], size_bits = 16, count = 0\<rparr>"
    by code_simp
  have d: "bloom_insert_all (demo_config 16) \<lparr>bit_array = [0, 0], size_bits = 16, count = 0\<rparr> [''00000AAAAA'']
     = Inr \<lparr>bit_array = [224, 0], size_bits = 16, count = 1\<rparr>"
    by code_simp
  have e: "bloom_insert (demo_config 16) \<lparr>bit_array = [224, 0], size_bits = 16, count = 1\<rparr> ''0123456789''
     = Inr \<lparr>bit_array = [224, 224], size_bits = 16, count = 2\<rparr>"
    by code_simp
  from no_false_negatives_single_filter [OF a b c d, of "''0123456789''"] obtain F1 where
    f1: "bloom_insert (demo_config 16) \<lparr>bit_array = [224, 0], size_bits = 16, count = 1\<rparr> ''0123456789'' = Inr F1"
    and in1: "bloom_contains (demo_config 16) F1 ''0123456789'' = Inr 1"
    and later: "\<And>later. \<exists>F2. bloom_insert_all (demo_config 16) F1 later = Inr F2 \<and>
         bloom_contains (demo_config 16) F2 ''0123456789'' = Inr 1"
    by blast
  have F1: "F1 = \<lparr>bit_array = [224, 224], size_bits = 16, count = 2\<rparr>"
    using f1 unfolding e by simp
  show ?thesis
    using a b c d e in1 later [of "[''FFFFFFFFFF'', ''0000000001'']"] unfolding F1 by blast
qed

subsection \<open>What an insert leaves unchanged; created filters\<close>

lemma bloom_insert_Inr:
  "bloom_insert c flt key = Inr flt' \<Longrightarrow>
     size_bits flt' = size_bits flt \<and> count flt' = count flt + 1 \<and>
     length (bit_array flt') = length (bit_array flt)"
  by (auto simp: bloom_insert_def split: sum.splits dest!: set_bit_c_length)

lemma bloom_insert_all_Inr:
  "bloom_insert_all c flt keys = Inr flt' \<Longrightarrow>
     size_bits flt' = size_bits flt \<and> count flt' = count flt + length keys \<and>
     length (bit_array flt') = length (bit_array flt)"
proof (induction keys arbitrary: flt)
  case Nil
  then show ?case by simp
next
  case (Cons key keys)
  then obtain f1 where f1: "bloom_insert c flt key = Inr f1"
    and rest: "bloom_insert_all c f1 keys = Inr flt'"
    by (auto split: sum.splits)
  show ?case
    using bloom_insert_Inr [OF f1] Cons.IH [OF rest] by simp
qed

lemma filter_inv_length:
  "filter_inv flt \<longleftrightarrow> length (bit_array flt) = size_bits flt div 8"
proof -
  have "i < size_bits flt"
    if "length (bit_array flt) = size_bits flt div 8" "bit_is_set (bit_array flt) i" for i
  proof -
    from that have "i div 8 < size_bits flt div 8" by (simp add: bit_is_set_def)
    then show ?thesis by arith
  qed
  then show ?thesis by (auto simp: filter_inv_def)
qed

lemma created_filter:
  "create_bloom_filter malloc_ok calloc_ok sz = Some flt \<Longrightarrow>
     flt = \<lparr>bit_array = replicate (sz div 8) 0, size_bits = sz, count = 0\<rparr>"
  by (auto simp: create_bloom_filter_def split: if_splits)

lemma bit_is_set_zeroed: "\<not> bit_is_set (replicate n 0) i"
  by (simp add: bit_is_set_def)

subsection \<open>Insert\<close>

text \<open>
  C3. For a filter whose bit array covers the positions (\<^verbatim>\<open>BLOOM_SIZE\<close> is positive and
  at most the number of bits of the array), an insert is defined: it hashes the bytes of
  the key up to its terminator with the seeds 0, 1 and 2, reduces each hash modulo the
  constant \<^verbatim>\<open>BLOOM_SIZE\<close> (the filter's own \<^verbatim>\<open>size\<close> field is not read), sets these three
  bits and no other, and adds exactly one to \<^verbatim>\<open>count\<close>, whatever the bits were before.
\<close>

theorem bloom_insert_semantics:
  assumes "0 < BLOOM_SIZE c" and "BLOOM_SIZE c \<le> 8 * length (bit_array flt)"
  shows "\<exists>flt'. bloom_insert c flt key = Inr flt' \<and>
     (\<forall>i. bit_is_set (bit_array flt') i \<longleftrightarrow>
        bit_is_set (bit_array flt) i \<or> i = bit_position c 0 key \<or>
        i = bit_position c 1 key \<or> i = bit_position c 2 key) \<and>
     bit_position c 0 key = unat (XXH32 c (takeWhile (\<lambda>ch. ch \<noteq> NUL) key) 0) mod BLOOM_SIZE c \<and>
     bit_position c 1 key = unat (XXH32 c (takeWhile (\<lambda>ch. ch \<noteq> NUL) key) 1) mod BLOOM_SIZE c \<and>
     bit_position c 2 key = unat (XXH32 c (takeWhile (\<lambda>ch. ch \<noteq> NUL) key) 2) mod BLOOM_SIZE c \<and>
     length (bit_array flt') = length (bit_array flt) \<and>
     size_bits flt' = size_bits flt \<and> count flt' = count flt + 1"
proof -
  have "covers c flt" using assms by (simp add: covers_def)
  from bloom_insert_covers [OF this, of key] show ?thesis
    by (simp add: bit_position_def)
qed

text \<open>
  An instance: the three bits of the key are already set, and \<^verbatim>\<open>count\<close> still goes from
  1 to 2.
\<close>

theorem bloom_insert_semantics_witness:
  "0 < BLOOM_SIZE (demo_config 16) \<and>
   BLOOM_SIZE (demo_config 16) \<le> 8 * length (bit_array \<lparr>bit_array = [0, 224], size_bits = 16, count = 1\<rparr>) \<and>
   bit_position (demo_config 16) 0 ''0123456789'' = 13 \<and>
   bit_position (demo_config 16) 1 ''0123456789'' = 14 \<and>
   bit_position (demo_config 16) 2 ''0123456789'' = 15 \<and>
   bit_is_set [0, 224] 13 \<and> bit_is_set [0, 224] 14 \<and> bit_is_set [0, 224] 15 \<and>
   (\<exists>flt'. bloom_insert (demo_config 16) \<lparr>bit_array = [0, 224], size_bits = 16, count = 1\<rparr> ''0123456789''
        = Inr flt' \<and> count flt' = 2 \<and> size_bits flt' = 16 \<and> length (bit_array flt') = 2)"
proof -
  have a: "0 < BLOOM_SIZE (demo_config 16)"
    by (simp add: demo_config_def)
  have b: "BLOOM_SIZE (demo_config 16)
      \<le> 8 * length (bit_array \<lparr>bit_array = [0, 224], size_bits = 16, count = 1\<rparr>)"
    by (simp add: demo_config_def)
  have p: "bit_position (demo_config 16) 0 ''0123456789'' = 13"
    "bit_position (demo_config 16) 1 ''0123456789'' = 14"
    "bit_position (demo_config 16) 2 ''0123456789'' = 15"
    by code_simp+
  have s: "bit_is_set [0, 224] 13" "bit_is_set [0, 224] 14" "bit_is_set [0, 224] 15"
    by code_simp+
  from bloom_insert_semantics [OF a b, of "''0123456789''"] obtain flt' where
    "bloom_insert (demo_config 16) \<lparr>bit_array = [0, 224], size_bits = 16, count = 1\<rparr> ''0123456789''
        = Inr flt'"
    "count flt' = 2" "size_bits flt' = 16" "length (bit_array flt') = 2"
    by auto
  then show ?thesis using a b p s by blast
qed

text \<open>
  The reduction is not modulo the capacity of the filter: with \<^verbatim>\<open>BLOOM_SIZE\<close> 8 and a
  filter of 16 bits, the first hash of the key is 13 modulo the capacity, and the insert
  sets bit 5 (the hash modulo 8) and leaves bit 13 clear.
\<close>

theorem bloom_insert_modulus_counterexample:
  "bloom_insert (demo_config 8) \<lparr>bit_array = [0, 0], size_bits = 16, count = 0\<rparr> ''0123456789''
     = Inr \<lparr>bit_array = [224, 0], size_bits = 16, count = 1\<rparr> \<and>
   unat (XXH32 (demo_config 8) ''0123456789'' 0)
     mod size_bits \<lparr>bit_array = [0, 0], size_bits = 16, count = 0\<rparr> = 13 \<and>
   \<not> bit_is_set [224, 0] 13 \<and>
   bit_is_set [224, 0] (unat (XXH32 (demo_config 8) ''0123456789'' 0) mod BLOOM_SIZE (demo_config 8))"
  by code_simp

subsection \<open>The invariant of the data model\<close>

text \<open>
  C4. The invariant of a filter: the bit array has \<^verbatim>\<open>size / 8\<close> bytes and every set bit
  has an index below \<^verbatim>\<open>size\<close>. Creation establishes it for every capacity. A sequence
  of inserts is defined and preserves it when the bit array covers the hash positions,
  that is, when \<^verbatim>\<open>BLOOM_SIZE\<close> is positive and at most \<open>8 * (size div 8)\<close>.
\<close>

theorem filter_invariant_preserved:
  assumes "0 < BLOOM_SIZE c" and "BLOOM_SIZE c \<le> 8 * (size_bits flt div 8)"
    and "filter_inv flt"
  shows "(\<exists>flt'. bloom_insert_all c flt keys = Inr flt' \<and> filter_inv flt' \<and>
            size_bits flt' = size_bits flt) \<and>
         (\<forall>malloc_ok calloc_ok sz flt0.
            create_bloom_filter malloc_ok calloc_ok sz = Some flt0 \<longrightarrow> filter_inv flt0)"
proof -
  have created: "filter_inv flt0"
    if "create_bloom_filter malloc_ok calloc_ok sz = Some flt0" for malloc_ok calloc_ok sz flt0
    using created_filter [OF that] by (simp add: filter_inv_length)
  have "covers c flt"
    using assms by (simp add: covers_def filter_inv_length)
  from covers_insert_all [OF this, of keys] obtain flt' where
    "bloom_insert_all c flt keys = Inr flt'" "size_bits flt' = size_bits flt"
    "length (bit_array flt') = length (bit_array flt)"
    by blast
  then show ?thesis
    using assms(3) created by (simp add: filter_inv_length)
qed

theorem filter_invariant_preserved_witness:
  "0 < BLOOM_SIZE (demo_config 16) \<and>
   BLOOM_SIZE (demo_config 16) \<le> 8 * (size_bits \<lparr>bit_array = [0, 0, 0], size_bits = 24, count = 0\<rparr> div 8) \<and>
   filter_inv \<lparr>bit_array = [0, 0, 0], size_bits = 24, count = 0\<rparr> \<and>
   (\<exists>flt'. bloom_insert_all (demo_config 16) \<lparr>bit_array = [0, 0, 0], size_bits = 24, count = 0\<rparr>
             [''0123456789'', ''FFFFFFFFFF''] = Inr flt' \<and> filter_inv flt' \<and> size_bits flt' = 24)"
proof -
  have a: "0 < BLOOM_SIZE (demo_config 16)"
    by (simp add: demo_config_def)
  have b: "BLOOM_SIZE (demo_config 16)
      \<le> 8 * (size_bits \<lparr>bit_array = [0, 0, 0], size_bits = 24, count = 0\<rparr> div 8)"
    by (simp add: demo_config_def)
  have i: "filter_inv \<lparr>bit_array = [0, 0, 0], size_bits = 24, count = 0\<rparr>"
    by (simp add: filter_inv_length)
  from filter_invariant_preserved [OF a b i, of "[''0123456789'', ''FFFFFFFFFF'']"]
  show ?thesis using a b i by simp
qed

text \<open>
  It is not preserved for every capacity: a filter created with 8 bits satisfies the
  invariant, and with \<^verbatim>\<open>BLOOM_SIZE\<close> 64 an insert writes to byte 1 of its one-byte array,
  outside the allocation.
\<close>

theorem filter_invariant_counterexample:
  "create_bloom_filter True True 8 = Some \<lparr>bit_array = [0], size_bits = 8, count = 0\<rparr> \<and>
   filter_inv \<lparr>bit_array = [0], size_bits = 8, count = 0\<rparr> \<and>
   bloom_insert (demo_config 64) \<lparr>bit_array = [0], size_bits = 8, count = 0\<rparr> ''0123456789''
     = Inl (BitArrayOutOfBounds 1)"
proof -
  have "create_bloom_filter True True 8 = Some \<lparr>bit_array = [0], size_bits = 8, count = 0\<rparr>"
    by code_simp
  moreover have "filter_inv \<lparr>bit_array = [0], size_bits = 8, count = 0\<rparr>"
    by (simp add: filter_inv_length)
  moreover have "bloom_insert (demo_config 64) \<lparr>bit_array = [0], size_bits = 8, count = 0\<rparr> ''0123456789''
     = Inl (BitArrayOutOfBounds 1)"
    by code_simp
  ultimately show ?thesis by blast
qed

subsection \<open>Fullness\<close>

text \<open>
  C5. \<^verbatim>\<open>bloom_filter_is_full\<close> returns 1 exactly when \<^verbatim>\<open>count >= size / 8\<close>, and 0
  otherwise. For a filter created with 800 bits: after any sequence of inserts that
  returns, it is full exactly when the sequence has at least 100 inserts; and when the
  hash positions fit the array (\<^verbatim>\<open>BLOOM_SIZE\<close> positive and at most 800), 100 inserts
  all return, the filter is full after the 100th and not full after any shorter prefix.
\<close>

theorem is_full_threshold:
  "(bloom_filter_is_full flt = 1 \<longleftrightarrow> count flt \<ge> size_bits flt div 8) \<and>
   (bloom_filter_is_full flt = 0 \<longleftrightarrow> count flt < size_bits flt div 8) \<and>
   (create_bloom_filter malloc_ok calloc_ok 800 = Some F0 \<and> bloom_insert_all c F0 keys = Inr F
      \<longrightarrow> (bloom_filter_is_full F = 1 \<longleftrightarrow> 100 \<le> length keys) \<and>
          (bloom_filter_is_full F = 0 \<longleftrightarrow> length keys < 100)) \<and>
   (0 < BLOOM_SIZE c \<and> BLOOM_SIZE c \<le> 800 \<and>
    create_bloom_filter malloc_ok calloc_ok 800 = Some F0 \<and> length keys = 100
      \<longrightarrow> (\<exists>F. bloom_insert_all c F0 keys = Inr F \<and> bloom_filter_is_full F = 1) \<and>
          (\<forall>n < 100. \<exists>F. bloom_insert_all c F0 (take n keys) = Inr F \<and>
             bloom_filter_is_full F = 0))"
proof -
  have thr: "(bloom_filter_is_full F = 1 \<longleftrightarrow> 100 \<le> length ks) \<and>
             (bloom_filter_is_full F = 0 \<longleftrightarrow> length ks < 100)"
    if "create_bloom_filter malloc_ok calloc_ok 800 = Some F0" "bloom_insert_all c F0 ks = Inr F"
    for ks F
    using created_filter [OF that(1)] bloom_insert_all_Inr [OF that(2)]
    by (auto simp: bloom_filter_is_full_def)
  have run: "\<exists>F. bloom_insert_all c F0 ks = Inr F"
    if "0 < BLOOM_SIZE c" "BLOOM_SIZE c \<le> 800"
      "create_bloom_filter malloc_ok calloc_ok 800 = Some F0" for ks
  proof -
    have "covers c F0"
      using created_filter [OF that(3)] that(1,2) by (simp add: covers_def)
    from covers_insert_all [OF this, of ks] show ?thesis by blast
  qed
  have hundred: "(\<exists>F. bloom_insert_all c F0 keys = Inr F \<and> bloom_filter_is_full F = 1) \<and>
          (\<forall>n < 100. \<exists>F. bloom_insert_all c F0 (take n keys) = Inr F \<and>
             bloom_filter_is_full F = 0)"
    if h: "0 < BLOOM_SIZE c" "BLOOM_SIZE c \<le> 800"
      "create_bloom_filter malloc_ok calloc_ok 800 = Some F0" and len: "length keys = 100"
  proof (intro conjI allI impI)
    from run [OF h, of keys] obtain F where F: "bloom_insert_all c F0 keys = Inr F" ..
    with thr [OF h(3) F] len
    show "\<exists>F. bloom_insert_all c F0 keys = Inr F \<and> bloom_filter_is_full F = 1" by auto
  next
    fix n :: nat
    assume n: "n < 100"
    from run [OF h, of "take n keys"] obtain F where
      F: "bloom_insert_all c F0 (take n keys) = Inr F" ..
    with thr [OF h(3) F] len n
    show "\<exists>F. bloom_insert_all c F0 (take n keys) = Inr F \<and> bloom_filter_is_full F = 0"
      by auto
  qed
  show ?thesis
    using thr hundred by (auto simp: bloom_filter_is_full_def)
qed

theorem is_full_threshold_witness:
  "0 < BLOOM_SIZE (demo_config 800) \<and> BLOOM_SIZE (demo_config 800) \<le> 800 \<and>
   create_bloom_filter True True 800 = Some \<lparr>bit_array = replicate 100 0, size_bits = 800, count = 0\<rparr> \<and>
   length (replicate 100 ''0123456789'') = 100 \<and>
   (\<exists>F. bloom_insert_all (demo_config 800) \<lparr>bit_array = replicate 100 0, size_bits = 800, count = 0\<rparr>
          (replicate 100 ''0123456789'') = Inr F \<and> bloom_filter_is_full F = 1) \<and>
   (\<exists>F. bloom_insert_all (demo_config 800) \<lparr>bit_array = replicate 100 0, size_bits = 800, count = 0\<rparr>
          (take 99 (replicate 100 ''0123456789'')) = Inr F \<and> bloom_filter_is_full F = 0)"
proof -
  have a: "0 < BLOOM_SIZE (demo_config 800) \<and> BLOOM_SIZE (demo_config 800) \<le> 800"
    by (simp add: demo_config_def)
  have b: "create_bloom_filter True True 800
      = Some \<lparr>bit_array = replicate 100 0, size_bits = 800, count = 0\<rparr>"
    by (simp add: create_bloom_filter_def)
  have l: "length (replicate 100 ''0123456789'') = 100" by simp
  have n: "(99::nat) < 100" by simp
  from is_full_threshold [of _ True True "\<lparr>bit_array = replicate 100 0, size_bits = 800, count = 0\<rparr>"
      "demo_config 800" "replicate 100 ''0123456789''"] a b l
  have "(\<exists>F. bloom_insert_all (demo_config 800) \<lparr>bit_array = replicate 100 0, size_bits = 800, count = 0\<rparr>
          (replicate 100 ''0123456789'') = Inr F \<and> bloom_filter_is_full F = 1) \<and>
          (\<forall>n < 100. \<exists>F. bloom_insert_all (demo_config 800) \<lparr>bit_array = replicate 100 0, size_bits = 800, count = 0\<rparr>
           (take n (replicate 100 ''0123456789'')) = Inr F \<and> bloom_filter_is_full F = 0)"
    by blast
  with n a b l show ?thesis by blast
qed

subsection \<open>Creation\<close>

text \<open>
  C9. \<^verbatim>\<open>create_bloom_filter\<close> returns \<^verbatim>\<open>NULL\<close> exactly when one of the two allocations
  fails, and otherwise a filter with a zeroed bit array of \<^verbatim>\<open>size / 8\<close> bytes, the given
  \<^verbatim>\<open>size\<close> and \<^verbatim>\<open>count\<close> 0. The membership test on the fresh filter returns 0 for every
  key when the capacity is a multiple of 8 and at least the positive \<^verbatim>\<open>BLOOM_SIZE\<close>.
\<close>

theorem create_bloom_filter_result:
  "(create_bloom_filter malloc_ok calloc_ok sz = None \<longleftrightarrow> \<not> (malloc_ok \<and> calloc_ok)) \<and>
   (create_bloom_filter malloc_ok calloc_ok sz = Some flt \<longrightarrow>
      bit_array flt = replicate (sz div 8) 0 \<and> length (bit_array flt) = sz div 8 \<and>
      size_bits flt = sz \<and> count flt = 0 \<and>
      (8 dvd sz \<and> 0 < BLOOM_SIZE c \<and> BLOOM_SIZE c \<le> sz \<longrightarrow> bloom_contains c flt key = Inr 0))"
proof -
  have none: "create_bloom_filter malloc_ok calloc_ok sz = None \<longleftrightarrow> \<not> (malloc_ok \<and> calloc_ok)"
    by (simp add: create_bloom_filter_def)
  have some: "bit_array flt = replicate (sz div 8) 0 \<and> length (bit_array flt) = sz div 8 \<and>
      size_bits flt = sz \<and> count flt = 0"
    if "create_bloom_filter malloc_ok calloc_ok sz = Some flt"
    using created_filter [OF that] by simp
  have fresh: "bloom_contains c flt key = Inr 0"
    if "create_bloom_filter malloc_ok calloc_ok sz = Some flt"
      "8 dvd sz" "0 < BLOOM_SIZE c" "BLOOM_SIZE c \<le> sz"
  proof -
    have "covers c flt" by (rule created_covers [OF that(3,2,4,1)])
    then show ?thesis
      using some [OF that(1)] by (simp add: bloom_contains_covers bit_is_set_zeroed)
  qed
  show ?thesis using none some fresh by blast
qed

theorem create_bloom_filter_result_witness:
  "create_bloom_filter True True 16 = Some \<lparr>bit_array = [0, 0], size_bits = 16, count = 0\<rparr> \<and>
   8 dvd (16::nat) \<and> 0 < BLOOM_SIZE (demo_config 16) \<and> BLOOM_SIZE (demo_config 16) \<le> 16 \<and>
   bloom_contains (demo_config 16) \<lparr>bit_array = [0, 0], size_bits = 16, count = 0\<rparr> ''0123456789'' = Inr 0 \<and>
   create_bloom_filter True False 16 = None \<and> create_bloom_filter False True 16 = None"
proof -
  have a: "create_bloom_filter True True 16 = Some \<lparr>bit_array = [0, 0], size_bits = 16, count = 0\<rparr>"
    by code_simp
  have b: "8 dvd (16::nat) \<and> 0 < BLOOM_SIZE (demo_config 16) \<and> BLOOM_SIZE (demo_config 16) \<le> 16"
    by (simp add: demo_config_def)
  from create_bloom_filter_result [of True True 16 "\<lparr>bit_array = [0, 0], size_bits = 16, count = 0\<rparr>"
      "demo_config 16" "''0123456789''"] a b
  have "bloom_contains (demo_config 16) \<lparr>bit_array = [0, 0], size_bits = 16, count = 0\<rparr> ''0123456789'' = Inr 0"
    by blast
  moreover have "create_bloom_filter True False 16 = None"
    using create_bloom_filter_result [of True False 16] by simp
  moreover have "create_bloom_filter False True 16 = None"
    using create_bloom_filter_result [of False True 16] by simp
  ultimately show ?thesis using a b by blast
qed

text \<open>
  For a capacity that is a multiple of 8 and smaller than \<^verbatim>\<open>BLOOM_SIZE\<close> the membership
  test on the fresh filter does not return 0: with 8 bits and \<^verbatim>\<open>BLOOM_SIZE\<close> 64 it reads
  byte 1 of the one-byte array.
\<close>

theorem create_bloom_filter_contains_counterexample:
  "8 dvd (8::nat) \<and>
   create_bloom_filter True True 8 = Some \<lparr>bit_array = [0], size_bits = 8, count = 0\<rparr> \<and>
   bloom_contains (demo_config 64) \<lparr>bit_array = [0], size_bits = 8, count = 0\<rparr> ''0123456789''
     = Inl (BitArrayOutOfBounds 1)"
proof -
  have "create_bloom_filter True True 8 = Some \<lparr>bit_array = [0], size_bits = 8, count = 0\<rparr>"
    by code_simp
  moreover have "bloom_contains (demo_config 64) \<lparr>bit_array = [0], size_bits = 8, count = 0\<rparr> ''0123456789''
     = Inl (BitArrayOutOfBounds 1)"
    by code_simp
  ultimately show ?thesis by simp
qed

section \<open>The planner\<close>

lemma ceiling_as_div:
  fixes n w :: nat
  assumes "0 < w"
  shows "\<lceil>real n / real w\<rceil> = int ((n + w - 1) div w)"
proof -
  define q where "q = (n + w - 1) div w"
  have "q * w \<le> n + w - 1"
    by (simp add: q_def)
  then have up: "q * w < n + w" using assms by linarith
  have "n + w - 1 < w + q * w"
    unfolding q_def using assms by (rule dividend_less_div_times)
  then have lo: "n \<le> q * w" using assms by linarith
  have "real n \<le> real q * real w"
    using lo by (metis of_nat_le_iff of_nat_mult)
  then have le: "real n / real w \<le> of_int (int q)"
    using assms by (simp add: pos_divide_le_eq)
  have "real q * real w < real n + real w"
    using up by (metis of_nat_less_iff of_nat_mult of_nat_add)
  then have "(real q - 1) * real w < real n"
    by (simp add: algebra_simps)
  then have gt: "of_int (int q) - 1 < real n / real w"
    using assms by (simp add: pos_less_divide_eq)
  show ?thesis
    unfolding q_def [symmetric] using gt le by (rule ceiling_unique)
qed

lemma int_result:
  fixes q :: "64 word"
  assumes "unat q < 2 ^ 31"
  shows "sint (ucast q :: 32 word) = int (unat q)"
proof -
  have "(ucast q :: 32 word) = word_of_nat (unat q)"
    by simp
  then have "sint (ucast q :: 32 word) = signed_take_bit 31 (int (unat q))"
    by (simp add: signed_of_nat del: of_nat_unat)
  also have "\<dots> = int (unat q)"
  proof (rule signed_take_bit_int_eq_self)
    have "(0::int) \<le> int (unat q)" by (rule of_nat_0_le_iff)
    moreover have "- (2 ^ 31) \<le> (0::int)" by simp
    ultimately show "- (2 ^ 31) \<le> int (unat q)" by (rule order_trans [rotated])
    have "int (unat q) < int (2 ^ 31)" using assms by (simp only: of_nat_less_iff)
    then show "int (unat q) < 2 ^ 31" by simp
  qed
  finally show ?thesis .
qed

lemma planner_value:
  assumes w: "0 < BLOOM_SIZE c" and n: "n + BLOOM_SIZE c - 1 < 2 ^ 64"
    and q: "(n + BLOOM_SIZE c - 1) div BLOOM_SIZE c < 2 ^ 31"
    and wlt: "BLOOM_SIZE c < 2 ^ 64"
  shows "determine_optimal_bloom_filters c (word_of_nat n)
           = Inr (int ((n + BLOOM_SIZE c - 1) div BLOOM_SIZE c))"
proof -
  let ?w = "word_of_nat (BLOOM_SIZE c) :: size_t"
  have uw: "unat ?w = BLOOM_SIZE c"
    using wlt by (simp add: of_nat_inverse)
  then have nz: "?w \<noteq> 0" using w by auto
  have "word_of_nat n + ?w - 1 = (word_of_nat (n + BLOOM_SIZE c - 1) :: size_t)"
    using w by (simp add: of_nat_diff)
  then have "unat (word_of_nat n + ?w - 1 :: size_t) = n + BLOOM_SIZE c - 1"
    using n by (simp add: of_nat_inverse)
  then have "unat ((word_of_nat n + ?w - 1) div ?w) = (n + BLOOM_SIZE c - 1) div BLOOM_SIZE c"
    by (simp add: unat_div uw)
  then have "sint (ucast ((word_of_nat n + ?w - 1) div ?w) :: 32 word)
      = int ((n + BLOOM_SIZE c - 1) div BLOOM_SIZE c)"
    using int_result [of "(word_of_nat n + ?w - 1) div ?w"] q by simp
  then show ?thesis
    using nz by (simp add: determine_optimal_bloom_filters_def Let_def)
qed

lemma plan_spec_div:
  "0 < w \<Longrightarrow> plan_spec n w = int ((n + w - 1) div w)"
  unfolding plan_spec_def by (rule ceiling_as_div)

text \<open>
  C7. For a positive \<^verbatim>\<open>BLOOM_SIZE\<close> \<open>w\<close> and a file length \<open>n\<close>, both within \<^verbatim>\<open>size_t\<close>,
  such that \<open>n + w - 1\<close> does not wrap around in \<^verbatim>\<open>size_t\<close> and the ceiling of \<open>n / w\<close>
  fits an \<^verbatim>\<open>int\<close>, \<^verbatim>\<open>determine_optimal_bloom_filters\<close> returns that ceiling; and the
  ceiling is 0 for \<open>n = 0\<close>, 1 for \<open>n = w\<close>, 2 for \<open>n = w + 1\<close> and \<open>k\<close> for \<open>n = k * w\<close>.
\<close>

theorem planner_ceiling:
  assumes "0 < BLOOM_SIZE c" and "BLOOM_SIZE c < 2 ^ 64"
    and "n + BLOOM_SIZE c - 1 < 2 ^ 64"
    and "plan_spec n (BLOOM_SIZE c) < 2 ^ 31"
  shows "determine_optimal_bloom_filters c (word_of_nat n) = Inr (plan_spec n (BLOOM_SIZE c)) \<and>
         (n = 0 \<longrightarrow> plan_spec n (BLOOM_SIZE c) = 0) \<and>
         (n = BLOOM_SIZE c \<longrightarrow> plan_spec n (BLOOM_SIZE c) = 1) \<and>
         (n = BLOOM_SIZE c + 1 \<longrightarrow> plan_spec n (BLOOM_SIZE c) = 2) \<and>
         (\<forall>k. n = k * BLOOM_SIZE c \<longrightarrow> plan_spec n (BLOOM_SIZE c) = int k)"
proof -
  let ?w = "BLOOM_SIZE c"
  note d = plan_spec_div [OF assms(1)]
  have "int ((n + ?w - 1) div ?w) < int (2 ^ 31)"
    using assms(4) by (simp add: d)
  then have "(n + ?w - 1) div ?w < 2 ^ 31"
    by (simp only: of_nat_less_iff)
  from planner_value [OF assms(1,3) this assms(2)]
  have code: "determine_optimal_bloom_filters c (word_of_nat n) = Inr (plan_spec n ?w)"
    by (simp add: d)
  have zero: "plan_spec 0 ?w = 0"
    using assms(1) by (simp add: d)
  have one: "plan_spec ?w ?w = 1"
  proof -
    have "(?w + ?w - 1) div ?w = (?w - 1 + 1 * ?w) div ?w"
      using assms(1) by simp
    also have "\<dots> = 1" using assms(1) by (subst div_mult_self1) simp_all
    finally show ?thesis by (simp add: d)
  qed
  have two: "plan_spec (?w + 1) ?w = 2"
  proof -
    have "(?w + 1 + ?w - 1) div ?w = (0 + 2 * ?w) div ?w"
      by simp
    also have "\<dots> = 2" using assms(1) by (subst div_mult_self1) simp_all
    finally show ?thesis by (simp add: d)
  qed
  have mult: "plan_spec (k * ?w) ?w = int k" for k
  proof -
    have "k * ?w + ?w - 1 = ?w - 1 + k * ?w"
      using assms(1) by linarith
    then have "(k * ?w + ?w - 1) div ?w = (?w - 1 + k * ?w) div ?w"
      by (rule arg_cong)
    also have "\<dots> = k" using assms(1) by (subst div_mult_self1) simp_all
    finally show ?thesis by (simp add: d)
  qed
  show ?thesis
    using code zero one two mult by blast
qed

theorem planner_ceiling_witness:
  "0 < BLOOM_SIZE (demo_config 8) \<and> BLOOM_SIZE (demo_config 8) < 2 ^ 64 \<and>
   17 + BLOOM_SIZE (demo_config 8) - 1 < 2 ^ 64 \<and>
   plan_spec 17 (BLOOM_SIZE (demo_config 8)) < 2 ^ 31 \<and>
   plan_spec 17 (BLOOM_SIZE (demo_config 8)) = 3 \<and>
   determine_optimal_bloom_filters (demo_config 8) 17 = Inr 3"
proof -
  have a: "0 < BLOOM_SIZE (demo_config 8)" and b: "BLOOM_SIZE (demo_config 8) < 2 ^ 64"
    and n: "17 + BLOOM_SIZE (demo_config 8) - 1 < 2 ^ 64"
    by (simp_all add: demo_config_def)
  have p: "plan_spec 17 (BLOOM_SIZE (demo_config 8)) = 3"
    by (simp add: plan_spec_div demo_config_def)
  then have q: "plan_spec 17 (BLOOM_SIZE (demo_config 8)) < 2 ^ 31" by simp
  from planner_ceiling [OF a b n q]
  have "determine_optimal_bloom_filters (demo_config 8) 17 = Inr 3"
    by (simp add: p)
  then show ?thesis using a b n p q by blast
qed

text \<open>
  Outside these bounds the result is not the ceiling, also for a width of \<open>2^26\<close> bits
  (8 MiB). A file of \<open>2^64 - 1\<close> bytes: the sum wraps around to \<open>2^26 - 2\<close> and the result
  is 0, the ceiling is \<open>2^38\<close>. A file of \<open>2^31 * 2^26\<close> bytes: the quotient \<open>2^31\<close> is
  returned as the negative \<^verbatim>\<open>int\<close> \<open>- 2^31\<close>.
\<close>

theorem planner_overflow_counterexample:
  "0 < BLOOM_SIZE (demo_config 67108864) \<and>
   determine_optimal_bloom_filters (demo_config 67108864) 18446744073709551615 = Inr 0 \<and>
   plan_spec 18446744073709551615 (BLOOM_SIZE (demo_config 67108864)) = 274877906944 \<and>
   determine_optimal_bloom_filters (demo_config 67108864) (word_of_nat (2147483648 * 67108864))
     = Inr (- 2147483648) \<and>
   plan_spec (2147483648 * 67108864) (BLOOM_SIZE (demo_config 67108864)) = 2147483648"
proof -
  have "determine_optimal_bloom_filters (demo_config 67108864) 18446744073709551615 = Inr 0"
    by (simp add: determine_optimal_bloom_filters_def demo_config_def)
  moreover have "determine_optimal_bloom_filters (demo_config 67108864)
      (word_of_nat (2147483648 * 67108864)) = Inr (- 2147483648)"
    by (simp add: determine_optimal_bloom_filters_def demo_config_def)
  moreover have "plan_spec 18446744073709551615 (BLOOM_SIZE (demo_config 67108864)) = 274877906944"
    by (simp add: plan_spec_div demo_config_def)
  moreover have "plan_spec (2147483648 * 67108864) (BLOOM_SIZE (demo_config 67108864)) = 2147483648"
    by (simp add: plan_spec_div demo_config_def)
  ultimately show ?thesis by (simp add: demo_config_def)
qed

section \<open>Lines and keys\<close>

lemma strncpy_c_terminated:
  "strncpy_c (xs @ NUL # ys) n =
     Some (take n (takeWhile (\<lambda>ch. ch \<noteq> NUL) xs) @
           replicate (n - length (takeWhile (\<lambda>ch. ch \<noteq> NUL) xs)) NUL)"
proof (induction xs arbitrary: n)
  case Nil
  then show ?case by (cases n) simp_all
next
  case (Cons x xs)
  show ?case
  proof (cases n)
    case 0
    then show ?thesis by simp
  next
    case (Suc m)
    show ?thesis
    proof (cases "x = NUL")
      case True
      then show ?thesis unfolding Suc by simp
    next
      case False
      then show ?thesis unfolding Suc using Cons.IH [of m] by simp
    qed
  qed
qed

lemma string_of_padded:
  "takeWhile (\<lambda>ch. ch \<noteq> NUL) ((take n (takeWhile (\<lambda>ch. ch \<noteq> NUL) xs) @ replicate k NUL) @ [NUL])
     = take n (takeWhile (\<lambda>ch. ch \<noteq> NUL) xs)"
proof -
  let ?p = "take n (takeWhile (\<lambda>ch. ch \<noteq> NUL) xs)"
  have free: "\<And>ch. ch \<in> set ?p \<Longrightarrow> ch \<noteq> NUL"
  proof -
    fix ch
    assume "ch \<in> set ?p"
    then have "ch \<in> set (takeWhile (\<lambda>ch. ch \<noteq> NUL) xs)" by (rule in_set_takeD)
    then show "ch \<noteq> NUL" by (rule set_takeWhileD [THEN conjunct2])
  qed
  have "takeWhile (\<lambda>ch. ch \<noteq> NUL) (?p @ (replicate k NUL @ [NUL]))
      = ?p @ takeWhile (\<lambda>ch. ch \<noteq> NUL) (replicate k NUL @ [NUL])"
    using free by (rule takeWhile_append2)
  also have "takeWhile (\<lambda>ch. ch \<noteq> NUL) (replicate k NUL @ [NUL]) = []"
    by (cases k) simp_all
  finally show ?thesis by simp
qed

lemma fgets_c_Some:
  assumes "fgets_c line 128 stream = Some (line', rest)"
  shows "line' = fgets_chars 127 stream @ NUL # drop (Suc (length (fgets_chars 127 stream))) line"
    and "rest = drop (length (fgets_chars 127 stream)) stream"
    and "stream \<noteq> []"
proof -
  from assms have ne: "stream \<noteq> []"
    by (auto simp: fgets_c_def)
  have "(128::nat) - 1 = 127" by simp
  with assms ne show
    "line' = fgets_chars 127 stream @ NUL # drop (Suc (length (fgets_chars 127 stream))) line"
    "rest = drop (length (fgets_chars 127 stream)) stream"
    by (simp_all add: fgets_c_def Let_def)
  show "stream \<noteq> []" by (rule ne)
qed

lemma key_extraction:
  assumes "fgets_c line 128 stream = Some (line', rest)"
  shows "strncpy_c line' 10 =
      Some (take 10 (takeWhile (\<lambda>ch. ch \<noteq> NUL) (fgets_chars 127 stream)) @
            replicate (10 - length (takeWhile (\<lambda>ch. ch \<noteq> NUL) (fgets_chars 127 stream))) NUL)"
  unfolding fgets_c_Some(1) [OF assms] by (rule strncpy_c_terminated)

text \<open>
  C8. Key extraction is defined for every line that \<^verbatim>\<open>fgets\<close> delivers, whatever its
  length and whatever the buffer \<^verbatim>\<open>line\<close> held before: \<^verbatim>\<open>fgets\<close> stores a terminator after
  the line, \<^verbatim>\<open>strncpy\<close> copies the characters before the first NUL (at most ten) and
  fills the rest of the ten bytes with NUL, so it reads nothing beyond the terminator.
  The key is the first ten characters of the line up to its first NUL; for a line
  shorter than ten characters that is the whole line, its newline included.
\<close>

theorem key_extraction_defined:
  assumes "fgets_c line 128 stream = Some (line', rest)"
  shows "\<exists>copied. strncpy_c line' 10 = Some copied \<and>
     copied = take 10 (takeWhile (\<lambda>ch. ch \<noteq> NUL) (fgets_chars 127 stream)) @
              replicate (10 - length (takeWhile (\<lambda>ch. ch \<noteq> NUL) (fgets_chars 127 stream))) NUL \<and>
     length copied = 10 \<and>
     takeWhile (\<lambda>ch. ch \<noteq> NUL) (copied @ [NUL])
       = take 10 (takeWhile (\<lambda>ch. ch \<noteq> NUL) (fgets_chars 127 stream))"
proof -
  let ?s = "takeWhile (\<lambda>ch. ch \<noteq> NUL) (fgets_chars 127 stream)"
  have "length (take 10 ?s @ replicate (10 - length ?s) NUL) = 10"
    by simp
  then show ?thesis
    using key_extraction [OF assms] string_of_padded [of 10 "fgets_chars 127 stream" "10 - length ?s"]
    by blast
qed

theorem key_extraction_defined_witness:
  "fgets_c (replicate 128 (CHR ''z'')) 128 (''abc'' @ [NL] @ ''0123456789:5'' @ [NL])
     = Some (''abc'' @ [NL, NUL] @ replicate 123 (CHR ''z''), ''0123456789:5'' @ [NL]) \<and>
   strncpy_c (''abc'' @ [NL, NUL] @ replicate 123 (CHR ''z'')) 10 = Some (''abc'' @ [NL] @ replicate 6 NUL) \<and>
   takeWhile (\<lambda>ch. ch \<noteq> NUL) ((''abc'' @ [NL] @ replicate 6 NUL) @ [NUL]) = ''abc'' @ [NL]"
proof -
  have f: "fgets_c (replicate 128 (CHR ''z'')) 128 (''abc'' @ [NL] @ ''0123456789:5'' @ [NL])
     = Some (''abc'' @ [NL, NUL] @ replicate 123 (CHR ''z''), ''0123456789:5'' @ [NL])"
    by code_simp
  have c: "fgets_chars 127 (''abc'' @ [NL] @ ''0123456789:5'' @ [NL]) = ''abc'' @ [NL]"
    by code_simp
  from key_extraction_defined [OF f] obtain copied where
    "strncpy_c (''abc'' @ [NL, NUL] @ replicate 123 (CHR ''z'')) 10 = Some copied"
    "copied = ''abc'' @ [NL] @ replicate 6 NUL"
    "takeWhile (\<lambda>ch. ch \<noteq> NUL) (copied @ [NUL]) = ''abc'' @ [NL]"
    unfolding c by auto
  then show ?thesis using f by simp
qed

text \<open>
  There is no line shorter than ten characters for which the copy runs off the buffer
  or the copied bytes depend on what the buffer held before; for the line \<open>abc\<close> two
  different earlier contents of the buffer give the same ten bytes.
\<close>

theorem short_line_overread_counterexample:
  "\<not> (\<exists>stream line1 line2 s1 r1 s2 r2.
        length (fgets_chars 127 stream) < 10 \<and>
        fgets_c line1 128 stream = Some (s1, r1) \<and> fgets_c line2 128 stream = Some (s2, r2) \<and>
        (strncpy_c s1 10 = None \<or> strncpy_c s1 10 \<noteq> strncpy_c s2 10)) \<and>
   strncpy_c (fst (the (fgets_c (replicate 128 (CHR ''z'')) 128 (''abc'' @ [NL] @ ''0123456789:5'' @ [NL])))) 10
     = Some (''abc'' @ [NL] @ replicate 6 NUL) \<and>
   strncpy_c (fst (the (fgets_c (replicate 128 (CHR ''q'')) 128 (''abc'' @ [NL] @ ''0123456789:5'' @ [NL])))) 10
     = Some (''abc'' @ [NL] @ replicate 6 NUL)"
proof -
  have "strncpy_c s1 10 \<noteq> None \<and> strncpy_c s1 10 = strncpy_c s2 10"
    if "fgets_c line1 128 stream = Some (s1, r1)" "fgets_c line2 128 stream = Some (s2, r2)"
    for stream line1 line2 s1 r1 s2 r2
    using key_extraction [OF that(1)] key_extraction [OF that(2)] by simp
  then have "\<not> (\<exists>stream line1 line2 s1 r1 s2 r2.
        length (fgets_chars 127 stream) < 10 \<and>
        fgets_c line1 128 stream = Some (s1, r1) \<and> fgets_c line2 128 stream = Some (s2, r2) \<and>
        (strncpy_c s1 10 = None \<or> strncpy_c s1 10 \<noteq> strncpy_c s2 10))"
    by blast
  moreover have "strncpy_c (fst (the (fgets_c (replicate 128 (CHR ''z'')) 128 (''abc'' @ [NL] @ ''0123456789:5'' @ [NL])))) 10
     = Some (''abc'' @ [NL] @ replicate 6 NUL)"
    by code_simp
  moreover have "strncpy_c (fst (the (fgets_c (replicate 128 (CHR ''q'')) 128 (''abc'' @ [NL] @ ''0123456789:5'' @ [NL])))) 10
     = Some (''abc'' @ [NL] @ replicate 6 NUL)"
    by code_simp
  ultimately show ?thesis by blast
qed

section \<open>Populating the shards\<close>

subsection \<open>Keys are strings\<close>

lemma xxhash_seeded_string:
  "xxhash_seeded c seed (takeWhile (\<lambda>ch. ch \<noteq> NUL) data) = xxhash_seeded c seed data"
proof -
  have "takeWhile (\<lambda>ch. ch \<noteq> NUL) (takeWhile (\<lambda>ch. ch \<noteq> NUL) data)
      = takeWhile (\<lambda>ch. ch \<noteq> NUL) data"
    by (rule takeWhile_idem)
  then show ?thesis
    by (simp add: xxhash_seeded_def take_strlen)
qed

lemma xxhash_string:
  "xxhash1 c (takeWhile (\<lambda>ch. ch \<noteq> NUL) data) = xxhash1 c data"
  "xxhash2 c (takeWhile (\<lambda>ch. ch \<noteq> NUL) data) = xxhash2 c data"
  "xxhash3 c (takeWhile (\<lambda>ch. ch \<noteq> NUL) data) = xxhash3 c data"
  by (simp_all add: xxhash1_def xxhash2_def xxhash3_def xxhash_seeded_string)

lemma bloom_insert_string:
  "bloom_insert c flt (takeWhile (\<lambda>ch. ch \<noteq> NUL) data) = bloom_insert c flt data"
  unfolding bloom_insert_def xxhash_string by (rule refl)

lemma bloom_contains_string:
  "bloom_contains c flt (takeWhile (\<lambda>ch. ch \<noteq> NUL) data) = bloom_contains c flt data"
  unfolding bloom_contains_def xxhash_string by (rule refl)

subsection \<open>One iteration of the loop\<close>

lemma populate_eof:
  "fgets_c line 128 stream = None \<Longrightarrow>
     populate_recursive_bloom_filters c filters line stream n cur = Inr (filters, cur)"
  by (subst populate_recursive_bloom_filters.simps) simp

lemma populate_step:
  "fgets_c line 128 stream = Some (line', rest) \<Longrightarrow>
     populate_recursive_bloom_filters c filters line stream n cur =
       (case populate_body c filters line' n cur of
          Inl e \<Rightarrow> Inl e
        | Inr (filters', cur') \<Rightarrow> populate_recursive_bloom_filters c filters' line' rest n cur')"
  by (subst populate_recursive_bloom_filters.simps) simp

lemma corpus_keys_eof:
  "fgets_c line 128 stream = None \<Longrightarrow> corpus_keys line stream = []"
  by (subst corpus_keys.simps) simp

lemma corpus_keys_step:
  assumes "fgets_c line 128 stream = Some (line', rest)"
  shows "corpus_keys line stream =
     take 10 (takeWhile (\<lambda>ch. ch \<noteq> NUL) (fgets_chars 127 stream)) # corpus_keys line' rest"
  using key_extraction [OF assms] string_of_padded [of 10 "fgets_chars 127 stream"]
  by (subst corpus_keys.simps) (simp add: assms)

lemma populate_body_key:
  assumes "fgets_c line 128 stream = Some (line', rest)"
  shows "populate_body c filters line' n cur =
     (if cur \<ge> length filters then Inl (FilterIndexOutOfBounds cur) else
      case bloom_insert c (filters ! cur)
             (take 10 (takeWhile (\<lambda>ch. ch \<noteq> NUL) (fgets_chars 127 stream))) of
        Inl e \<Rightarrow> Inl e
      | Inr f \<Rightarrow>
          if bloom_filter_is_full f \<noteq> 0
          then (if n = 0 then Inl CursorModulusZero
                else Inr (filters[cur := f], (cur + 1) mod n))
          else Inr (filters[cur := f], cur))"
proof -
  let ?copied = "take 10 (takeWhile (\<lambda>ch. ch \<noteq> NUL) (fgets_chars 127 stream)) @
      replicate (10 - length (takeWhile (\<lambda>ch. ch \<noteq> NUL) (fgets_chars 127 stream))) NUL"
  have k: "strncpy_c line' 10 = Some ?copied"
    by (rule key_extraction [OF assms])
  have s: "bloom_insert c flt (?copied @ [NUL]) =
      bloom_insert c flt (take 10 (takeWhile (\<lambda>ch. ch \<noteq> NUL) (fgets_chars 127 stream)))" for flt
    using bloom_insert_string [of c flt "?copied @ [NUL]"]
      string_of_padded [of 10 "fgets_chars 127 stream"]
    by simp
  show ?thesis
    unfolding populate_body_def k option.case Let_def s
    by (auto split: sum.splits)
qed

text \<open>
  For newline-terminated lines of fewer than 127 characters, each call of \<^verbatim>\<open>fgets\<close>
  delivers one line, and the keys are the keys of the lines, in order.
\<close>

lemma fgets_chars_line:
  "NL \<notin> set l \<Longrightarrow> length l < n \<Longrightarrow> fgets_chars n (l @ NL # after) = l @ [NL]"
proof (induction l arbitrary: n)
  case Nil
  then show ?case by (cases n) simp_all
next
  case (Cons ch l)
  then obtain m where n: "n = Suc m" by (cases n) auto
  have "fgets_chars m (l @ NL # after) = l @ [NL]"
    using Cons.prems by (intro Cons.IH) (simp_all add: n)
  moreover have "ch \<noteq> NL" using Cons.prems(1) by auto
  ultimately show ?case
    by (simp add: n)
qed

lemma fgets_c_nonempty:
  "stream \<noteq> [] \<Longrightarrow> \<exists>line' rest. fgets_c line 128 stream = Some (line', rest)"
  by (simp add: fgets_c_def Let_def)

lemma corpus_keys_lines:
  assumes "\<forall>l \<in> set lines. NL \<notin> set l \<and> length l < 127"
  shows "corpus_keys line (concat (map (\<lambda>l. l @ [NL]) lines))
           = map (\<lambda>l. take 10 (takeWhile (\<lambda>ch. ch \<noteq> NUL) (l @ [NL]))) lines"
  using assms
proof (induction lines arbitrary: line)
  case Nil
  then show ?case by (simp add: corpus_keys_eof fgets_c_def)
next
  case (Cons l lines)
  let ?after = "concat (map (\<lambda>l. l @ [NL]) lines)"
  let ?stream = "concat (map (\<lambda>l. l @ [NL]) (l # lines))"
  have st: "?stream = l @ NL # ?after" by simp
  have ch: "fgets_chars 127 ?stream = l @ [NL]"
    unfolding st using Cons.prems by (intro fgets_chars_line) simp_all
  obtain line' rest where f: "fgets_c line 128 ?stream = Some (line', rest)"
    using fgets_c_nonempty [of ?stream line] by auto
  have "rest = ?after"
    using fgets_c_Some(2) [OF f] unfolding ch by simp
  moreover have "corpus_keys line' ?after
      = map (\<lambda>l. take 10 (takeWhile (\<lambda>ch. ch \<noteq> NUL) (l @ [NL]))) lines"
    using Cons.prems by (intro Cons.IH) simp
  ultimately show ?case
    unfolding corpus_keys_step [OF f] ch by simp
qed

subsection \<open>The loop against the Populator of the spec\<close>

lemma populate_refines:
  assumes "0 < n" and "length filters = n" and "cur < n"
  shows "populate_recursive_bloom_filters c filters line stream n cur
           = populate_spec c filters cur (corpus_keys line stream)"
  using assms(2,3)
proof (induction stream arbitrary: filters line cur rule: length_induct)
  case (1 stream)
  show ?case
  proof (cases "fgets_c line 128 stream")
    case None
    then show ?thesis
      by (simp add: populate_eof corpus_keys_eof)
  next
    case (Some r)
    then obtain line' rest where f: "fgets_c line 128 stream = Some (line', rest)"
      by (cases r) simp
    let ?key = "take 10 (takeWhile (\<lambda>ch. ch \<noteq> NUL) (fgets_chars 127 stream))"
    have shorter: "length rest < length stream"
      by (rule fgets_c_consumes [OF f])
    have inb: "\<not> length filters \<le> cur"
      using "1.prems" by simp
    show ?thesis
    proof (cases "bloom_insert c (filters ! cur) ?key")
      case (Inl e)
      then show ?thesis
        using inb by (simp add: populate_step [OF f] populate_body_key [OF f] corpus_keys_step [OF f])
    next
      case (Inr f')
      let ?cur' = "if bloom_filter_is_full f' \<noteq> 0 then (cur + 1) mod n else cur"
      have body: "populate_body c filters line' n cur = Inr (filters[cur := f'], ?cur')"
        using inb Inr assms(1) by (simp add: populate_body_key [OF f])
      have len: "length (filters[cur := f']) = n"
        using "1.prems" by simp
      have cur': "?cur' < n"
        using "1.prems" assms(1) by simp
      have "populate_recursive_bloom_filters c (filters[cur := f']) line' rest n ?cur'
          = populate_spec c (filters[cur := f']) ?cur' (corpus_keys line' rest)"
        using "1.IH" shorter len cur' by blast
      then show ?thesis
        using Inr "1.prems"(1)
        by (simp add: populate_step [OF f] body corpus_keys_step [OF f])
    qed
  qed
qed

lemma bloom_insert_faults:
  assumes "bloom_insert c flt key = Inl e"
  shows "e = HashModulusZero \<or> (\<exists>i. e = BitArrayOutOfBounds i)"
proof -
  have h: "xxhash_seeded c s key = Inl e \<Longrightarrow> e = HashModulusZero" for s
    by (auto simp: xxhash_seeded_def split: if_splits)
  have b: "set_bit_c arr idx = Inl e \<Longrightarrow> \<exists>i. e = BitArrayOutOfBounds i" for arr idx
    by (auto simp: set_bit_c_def Let_def split: if_splits)
  from assms show ?thesis
    unfolding bloom_insert_def xxhash1_def xxhash2_def xxhash3_def
    by (auto split: sum.splits dest: h b)
qed

lemma populate_spec_in_range:
  assumes "cur < length fs"
  shows "(populate_spec c fs cur keys = Inr (fs', cur') \<longrightarrow>
            length fs' = length fs \<and> cur' < length fs) \<and>
         (populate_spec c fs cur keys = Inl e \<longrightarrow>
            e = HashModulusZero \<or> (\<exists>i. e = BitArrayOutOfBounds i))"
  using assms
proof (induction keys arbitrary: fs cur)
  case Nil
  then show ?case by auto
next
  case (Cons key keys)
  show ?case
  proof (cases "bloom_insert c (fs ! cur) key")
    case (Inl e')
    then show ?thesis
      using bloom_insert_faults [OF Inl] by auto
  next
    case (Inr f)
    let ?cur' = "if bloom_filter_is_full f \<noteq> 0 then (cur + 1) mod length fs else cur"
    have "0 < length fs" using Cons.prems by (rule le_less_trans [OF le0])
    then have "(cur + 1) mod length fs < length fs" by (rule mod_less_divisor)
    then have "?cur' < length (fs[cur := f])"
      using Cons.prems by simp
    from Cons.IH [OF this]
    have "(populate_spec c (fs[cur := f]) ?cur' keys = Inr (fs', cur') \<longrightarrow>
            length fs' = length fs \<and> cur' < length fs) \<and>
         (populate_spec c (fs[cur := f]) ?cur' keys = Inl e \<longrightarrow>
            e = HashModulusZero \<or> (\<exists>i. e = BitArrayOutOfBounds i))"
      by simp
    then show ?thesis
      using Inr by simp
  qed
qed

subsection \<open>Keys stay in the shards\<close>


lemma held_after_insert:
  assumes cov: "\<forall>f \<in> set fs. covers c f" and cur: "cur < length fs"
    and ins: "bloom_insert c (fs ! cur) key = Inr f1"
  shows "held c (fs[cur := f1]) key"
    and "held c fs k \<Longrightarrow> held c (fs[cur := f1]) k"
    and "\<forall>f \<in> set (fs[cur := f1]). covers c f"
proof -
  have c0: "covers c (fs ! cur)" using cov cur by simp
  have c1: "covers c f1" by (rule covers_insert [OF c0 ins])
  have "bloom_contains c f1 key = Inr 1" by (rule contains_after_insert [OF c0 ins])
  then show "held c (fs[cur := f1]) key"
    unfolding held_def using cur by (intro exI [of _ cur]) simp
  show "\<forall>f \<in> set (fs[cur := f1]). covers c f"
    using cov c1 set_update_subset_insert [of fs cur f1] by blast
  assume "held c fs k"
  then obtain i where i: "i < length fs" "bloom_contains c (fs ! i) k = Inr 1"
    unfolding held_def by blast
  have mono: "\<And>j. bit_is_set (bit_array (fs ! cur)) j \<Longrightarrow> bit_is_set (bit_array f1) j"
    using bloom_insert_covers [OF c0, of key] ins by auto
  have "bloom_contains c (fs[cur := f1] ! i) k = Inr 1"
  proof (cases "i = cur")
    case True
    then show ?thesis
      using contains_preserved [OF c0 _ mono c1, of k] i by simp
  next
    case False
    then show ?thesis using i by simp
  qed
  then show "held c (fs[cur := f1]) k"
    unfolding held_def using i(1) by (intro exI [of _ i]) simp
qed

lemma populate_spec_holds:
  assumes "\<forall>f \<in> set fs. covers c f" and "cur < length fs"
  shows "\<exists>fs' cur'. populate_spec c fs cur keys = Inr (fs', cur') \<and>
     length fs' = length fs \<and> cur' < length fs \<and> (\<forall>f \<in> set fs'. covers c f) \<and>
     (\<forall>k. held c fs k \<longrightarrow> held c fs' k) \<and> (\<forall>k \<in> set keys. held c fs' k)"
  using assms
proof (induction keys arbitrary: fs cur)
  case Nil
  then show ?case by simp
next
  case (Cons key keys)
  have c0: "covers c (fs ! cur)" using Cons.prems by simp
  from bloom_insert_covers [OF c0, of key] obtain f1 where
    ins: "bloom_insert c (fs ! cur) key = Inr f1" by blast
  let ?fs1 = "fs[cur := f1]"
  let ?cur1 = "if bloom_filter_is_full f1 \<noteq> 0 then (cur + 1) mod length fs else cur"
  note h = held_after_insert [OF Cons.prems ins]
  have "0 < length fs" using Cons.prems(2) by (rule le_less_trans [OF le0])
  then have "(cur + 1) mod length fs < length fs" by (rule mod_less_divisor)
  then have "?cur1 < length ?fs1" using Cons.prems(2) by simp
  from Cons.IH [OF h(3) this] obtain fs' cur' where
    r: "populate_spec c ?fs1 ?cur1 keys = Inr (fs', cur') \<and>
     length fs' = length ?fs1 \<and> cur' < length ?fs1 \<and> (\<forall>f \<in> set fs'. covers c f) \<and>
     (\<forall>k. held c ?fs1 k \<longrightarrow> held c fs' k) \<and> (\<forall>k \<in> set keys. held c fs' k)"
    by (elim exE)
  then have run: "populate_spec c ?fs1 ?cur1 keys = Inr (fs', cur')"
    and len: "length fs' = length fs" and cur': "cur' < length fs"
    and cov: "\<forall>f \<in> set fs'. covers c f"
    and mono: "\<forall>k. held c ?fs1 k \<longrightarrow> held c fs' k"
    and keys: "\<forall>k \<in> set keys. held c fs' k"
    by simp_all
  have 1: "populate_spec c fs cur (key # keys) = Inr (fs', cur')"
    using ins run by simp
  have 2: "\<forall>k. held c fs k \<longrightarrow> held c fs' k"
    using mono h(2) by blast
  have "held c fs' key" using mono h(1) by blast
  then have 3: "\<forall>k \<in> set (key # keys). held c fs' k"
    using keys by simp
  show ?case
    using 1 len cur' cov 2 3 by (intro exI conjI)
qed

subsection \<open>Rotation\<close>

text \<open>
  C6. For a shard array of \<^verbatim>\<open>num_filters\<close> \<open>\<ge> 1\<close> filters, the loop started at cursor 0
  (as \<^verbatim>\<open>split_into_bloom_filters\<close> starts it) computes what the Populator of the spec
  computes on the keys of the file in file order: each key is inserted into the shard at
  the cursor, and after the insert the cursor becomes \<open>(cursor + 1) mod num_filters\<close> when
  that shard reports full and stays where it is otherwise. The keys of a file of
  newline-terminated lines are the keys of its lines, in order. When the bit arrays
  cover the hash positions, no insert is refused or undefined, whether or not the shards
  are full, and the run ends with the cursor in range.
\<close>

theorem rotation_refines_spec:
  assumes "1 \<le> num_filters" and "length filters = num_filters"
  shows "populate_recursive_bloom_filters c filters line content num_filters 0
           = populate_spec c filters 0 (corpus_keys line content) \<and>
         split_into_bloom_filters c (Some content) line filters num_filters
           = (case populate_spec c filters 0 (corpus_keys line content) of
                Inl e \<Rightarrow> Inl e | Inr (shards, cursor) \<Rightarrow> Inr shards) \<and>
         ((\<forall>l \<in> set lines. NL \<notin> set l \<and> length l < 127) \<and>
            content = concat (map (\<lambda>l. l @ [NL]) lines) \<longrightarrow>
          corpus_keys line content
            = map (\<lambda>l. take 10 (takeWhile (\<lambda>ch. ch \<noteq> NUL) (l @ [NL]))) lines) \<and>
         ((\<forall>f \<in> set filters. covers c f) \<longrightarrow>
          (\<exists>shards cursor. populate_spec c filters 0 (corpus_keys line content) = Inr (shards, cursor) \<and>
             length shards = num_filters \<and> cursor < num_filters))"
proof -
  have n: "0 < num_filters" using assms(1) by simp
  have r: "populate_recursive_bloom_filters c filters line content num_filters 0
           = populate_spec c filters 0 (corpus_keys line content)"
    by (rule populate_refines [OF n assms(2) n])
  have s: "split_into_bloom_filters c (Some content) line filters num_filters
           = (case populate_spec c filters 0 (corpus_keys line content) of
                Inl e \<Rightarrow> Inl e | Inr (shards, cursor) \<Rightarrow> Inr shards)"
    by (simp add: split_into_bloom_filters_def r)
  have k: "corpus_keys line content
            = map (\<lambda>l. take 10 (takeWhile (\<lambda>ch. ch \<noteq> NUL) (l @ [NL]))) lines"
    if "\<forall>l \<in> set lines. NL \<notin> set l \<and> length l < 127"
      "content = concat (map (\<lambda>l. l @ [NL]) lines)"
    unfolding that(2) by (rule corpus_keys_lines [OF that(1)])
  have t: "\<exists>shards cursor. populate_spec c filters 0 (corpus_keys line content) = Inr (shards, cursor) \<and>
             length shards = num_filters \<and> cursor < num_filters"
    if "\<forall>f \<in> set filters. covers c f"
  proof -
    have "0 < length filters" using n assms(2) by simp
    from populate_spec_holds [OF that this, of "corpus_keys line content"] assms(2)
    show ?thesis by auto
  qed
  show ?thesis
    using r s k t by (intro conjI impI) blast+
qed

text \<open>
  An instance with two shards that are full from two inserts on: keys 1 and 2 go to
  shard 0, keys 3 and 4 to shard 1, key 5 to shard 0 again, which is already full.
\<close>

theorem rotation_refines_spec_witness:
  "(1::nat) \<le> 2 \<and> length [demo_filter, demo_filter] = 2 \<and>
   corpus_keys [] demo_corpus
     = [''0123456789'', ''00000AAAAA'', ''abc'' @ [NL], ''FFFFFFFFFF'', ''0000000001''] \<and>
   populate_recursive_bloom_filters (demo_config 16) [demo_filter, demo_filter] [] demo_corpus 2 0
     = Inr ([\<lparr>bit_array = [238, 224], size_bits = 16, count = 3\<rparr>,
             \<lparr>bit_array = [7, 112], size_bits = 16, count = 2\<rparr>], 1)"
proof -
  have a: "(1::nat) \<le> 2" by simp
  have b: "length [demo_filter, demo_filter] = 2" by simp
  have k: "corpus_keys [] demo_corpus
     = [''0123456789'', ''00000AAAAA'', ''abc'' @ [NL], ''FFFFFFFFFF'', ''0000000001'']"
    by code_simp
  have s: "populate_spec (demo_config 16) [demo_filter, demo_filter] 0
      [''0123456789'', ''00000AAAAA'', ''abc'' @ [NL], ''FFFFFFFFFF'', ''0000000001'']
     = Inr ([\<lparr>bit_array = [238, 224], size_bits = 16, count = 3\<rparr>,
             \<lparr>bit_array = [7, 112], size_bits = 16, count = 2\<rparr>], 1)"
    by code_simp
  from rotation_refines_spec [OF a b, of "demo_config 16" "[]" demo_corpus]
  have "populate_recursive_bloom_filters (demo_config 16) [demo_filter, demo_filter] [] demo_corpus 2 0
     = populate_spec (demo_config 16) [demo_filter, demo_filter] 0 (corpus_keys [] demo_corpus)"
    by blast
  then show ?thesis
    unfolding k s using a b by simp
qed

subsection \<open>No false negatives in the shard set\<close>













subsection \<open>The cursor stays in range\<close>

text \<open>
  C10. With \<^verbatim>\<open>num_filters\<close> \<open>\<ge> 1\<close> shards and a cursor in range, the loop on any stream
  never indexes the shard array out of range and never takes a remainder modulo zero:
  every such access would end the run with the corresponding fault, and a run either
  ends with a fault of an insert or returns as many shards and a cursor in range. The
  bound on \<^verbatim>\<open>num_filters\<close> is needed: with \<^verbatim>\<open>num_filters\<close> 0 and an empty shard
  array the first line reads \<^verbatim>\<open>filters[0]\<close> outside the array, and with \<^verbatim>\<open>num_filters\<close> 0
  and a first shard that is full after the first insert the cursor advance is a
  remainder modulo zero.
\<close>

theorem populator_index_safety:
  "(1 \<le> num_filters \<and> length filters = num_filters \<and> current_filter < num_filters \<longrightarrow>
      (\<forall>filters' cursor.
         populate_recursive_bloom_filters c filters line stream num_filters current_filter
           = Inr (filters', cursor) \<longrightarrow> length filters' = num_filters \<and> cursor < num_filters) \<and>
      (\<forall>e. populate_recursive_bloom_filters c filters line stream num_filters current_filter = Inl e
           \<longrightarrow> e \<noteq> CursorModulusZero \<and> (\<forall>i. e \<noteq> FilterIndexOutOfBounds i))) \<and>
   (stream \<noteq> [] \<longrightarrow>
      populate_recursive_bloom_filters c [] line stream 0 0 = Inl (FilterIndexOutOfBounds 0)) \<and>
   (stream \<noteq> [] \<and> filters \<noteq> [] \<and>
    bloom_insert c (filters ! 0) (take 10 (takeWhile (\<lambda>ch. ch \<noteq> NUL) (fgets_chars 127 stream))) = Inr f \<and>
    bloom_filter_is_full f \<noteq> 0 \<longrightarrow>
      populate_recursive_bloom_filters c filters line stream 0 0 = Inl CursorModulusZero)"
proof (intro conjI impI)
  assume h: "1 \<le> num_filters \<and> length filters = num_filters \<and> current_filter < num_filters"
  then have n: "0 < num_filters" and l: "length filters = num_filters"
    and cur: "current_filter < num_filters" by simp_all
  note r = populate_refines [OF n l cur, of c line stream]
  have cur': "current_filter < length filters" using l cur by simp
  show "\<forall>filters' cursor.
         populate_recursive_bloom_filters c filters line stream num_filters current_filter
           = Inr (filters', cursor) \<longrightarrow> length filters' = num_filters \<and> cursor < num_filters"
    unfolding r using populate_spec_in_range [OF cur', of c "corpus_keys line stream"] l by blast
  show "\<forall>e. populate_recursive_bloom_filters c filters line stream num_filters current_filter = Inl e
           \<longrightarrow> e \<noteq> CursorModulusZero \<and> (\<forall>i. e \<noteq> FilterIndexOutOfBounds i)"
    unfolding r using populate_spec_in_range [OF cur', of c "corpus_keys line stream"] by auto
next
  assume "stream \<noteq> []"
  then obtain line' rest where f: "fgets_c line 128 stream = Some (line', rest)"
    using fgets_c_nonempty by blast
  show "populate_recursive_bloom_filters c [] line stream 0 0 = Inl (FilterIndexOutOfBounds 0)"
    by (simp add: populate_step [OF f] populate_body_key [OF f])
next
  assume h: "stream \<noteq> [] \<and> filters \<noteq> [] \<and>
    bloom_insert c (filters ! 0) (take 10 (takeWhile (\<lambda>ch. ch \<noteq> NUL) (fgets_chars 127 stream))) = Inr f \<and>
    bloom_filter_is_full f \<noteq> 0"
  then obtain line' rest where f: "fgets_c line 128 stream = Some (line', rest)"
    using fgets_c_nonempty by blast
  show "populate_recursive_bloom_filters c filters line stream 0 0 = Inl CursorModulusZero"
    using h by (simp add: populate_step [OF f] populate_body_key [OF f])
qed

theorem populator_index_safety_witness:
  "(1::nat) \<le> 2 \<and> length [demo_filter, demo_filter] = 2 \<and> (0::nat) < 2 \<and>
   populate_recursive_bloom_filters (demo_config 16) [demo_filter, demo_filter] [] demo_corpus 2 0
     = Inr ([\<lparr>bit_array = [238, 224], size_bits = 16, count = 3\<rparr>,
             \<lparr>bit_array = [7, 112], size_bits = 16, count = 2\<rparr>], 1) \<and>
   length [\<lparr>bit_array = [238, 224], size_bits = 16, count = 3\<rparr>,
           \<lparr>bit_array = [7, 112], size_bits = 16, count = 2\<rparr>] = 2 \<and> (1::nat) < 2 \<and>
   demo_corpus \<noteq> [] \<and>
   populate_recursive_bloom_filters (demo_config 16) [] [] demo_corpus 0 0
     = Inl (FilterIndexOutOfBounds 0) \<and>
   populate_recursive_bloom_filters (demo_config 8)
       [\<lparr>bit_array = [0], size_bits = 8, count = 0\<rparr>] [] demo_corpus 0 0
     = Inl CursorModulusZero"
proof -
  have h: "(1::nat) \<le> 2 \<and> length [demo_filter, demo_filter] = 2 \<and> (0::nat) < 2" by simp
  have p: "populate_recursive_bloom_filters (demo_config 16) [demo_filter, demo_filter] [] demo_corpus 2 0
     = Inr ([\<lparr>bit_array = [238, 224], size_bits = 16, count = 3\<rparr>,
             \<lparr>bit_array = [7, 112], size_bits = 16, count = 2\<rparr>], 1)"
    by code_simp
  have ne: "demo_corpus \<noteq> []" by (simp add: demo_corpus_def)
  have k: "take 10 (takeWhile (\<lambda>ch. ch \<noteq> NUL) (fgets_chars 127 demo_corpus)) = ''0123456789''"
    by code_simp
  have i: "bloom_insert (demo_config 8) ([\<lparr>bit_array = [0], size_bits = 8, count = 0\<rparr>] ! 0) ''0123456789''
      = Inr \<lparr>bit_array = [224], size_bits = 8, count = 1\<rparr>"
    by code_simp
  have u: "bloom_filter_is_full \<lparr>bit_array = [224], size_bits = 8, count = 1\<rparr> \<noteq> 0"
    by (simp add: bloom_filter_is_full_def)
  from populator_index_safety [of 2 "[demo_filter, demo_filter]" 0 "demo_config 16" "[]" demo_corpus] h p
  have 1: "length [\<lparr>bit_array = [238, 224], size_bits = 16, count = 3\<rparr>,
           \<lparr>bit_array = [7, 112], size_bits = 16, count = 2\<rparr>] = 2 \<and> (1::nat) < 2"
    by blast
  from populator_index_safety [of 0 "[]" 0 "demo_config 16" "[]" demo_corpus] ne
  have 2: "populate_recursive_bloom_filters (demo_config 16) [] [] demo_corpus 0 0
     = Inl (FilterIndexOutOfBounds 0)"
    by blast
  from populator_index_safety [of 0 "[\<lparr>bit_array = [0], size_bits = 8, count = 0\<rparr>]" 0 "demo_config 8" "[]"
      demo_corpus "\<lparr>bit_array = [224], size_bits = 8, count = 1\<rparr>"] ne i u
  have 3: "populate_recursive_bloom_filters (demo_config 8)
       [\<lparr>bit_array = [0], size_bits = 8, count = 0\<rparr>] [] demo_corpus 0 0
     = Inl CursorModulusZero"
    unfolding k by blast
  show ?thesis using h p 1 ne 2 3 by blast
qed

end
